theory Spec2Isabelle
  imports Main "HOL-Library.Word" "HOL-Library.Multiset"
begin

section \<open>The thread pool of ThreadPool.h as a transition system\<close>

text \<open>
  The class \<^verbatim>\<open>ThreadPool\<close> (src/ThreadPool/ThreadPool.h) is embedded as a record of its
  data members together with the control state of every thread that touches it.
  One step of the model is one synchronisation operation or one access to shared
  memory of one thread: locking a mutex, the body of a critical section up to its
  unlock, a read or write of an atomic, the invocation of a task, a notify, a join.
  A blocked operation (a mutex that is taken, a join on a running thread, a wait on
  the condition variable) is a step that is not enabled.

  Threads are the \<^emph>\<open>owner\<close> thread, which calls the public member functions one after
  the other, and the worker threads started by \<^verbatim>\<open>InitThead\<close>.
\<close>

subsection \<open>Tasks and result handles\<close>

type_synonym u32 = "32 word"

text \<open>A task is the heap object \<^verbatim>\<open>new std::function<TaskFunction>\<close> of one call of
  \<^verbatim>\<open>Enqueue\<close>; a thread id names one \<^verbatim>\<open>std::thread\<close> started by \<^verbatim>\<open>InitThead\<close>.\<close>

type_synonym task = nat
type_synonym tid = nat

text \<open>What the submitted callable does when it is invoked with a worker id: it returns
  a value or throws.\<close>

datatype outcome = Returned int | Raised string

text \<open>The shared state between the \<^verbatim>\<open>std::packaged_task\<close> and its \<^verbatim>\<open>std::future\<close>.
  Invoking the packaged task stores the value or the exception of the callable;
  destroying a packaged task that was never invoked stores \<^verbatim>\<open>broken_promise\<close>.\<close>

datatype shared_state = Pending | Ready outcome | Broken

datatype error = TaskFailure string | BrokenPromise | OutOfRange | NotJoinable

text \<open>\<^verbatim>\<open>future::get\<close>: \<open>None\<close> is a reader that blocks.\<close>

definition future_get :: "shared_state \<Rightarrow> (error + int) option" where
  "future_get st =
     (case st of
        Pending \<Rightarrow> None
      | Ready (Returned v) \<Rightarrow> Some (Inr v)
      | Ready (Raised e) \<Rightarrow> Some (Inl (TaskFailure e))
      | Broken \<Rightarrow> Some (Inl BrokenPromise))"

subsection \<open>Control states\<close>

text \<open>The control points of \<^verbatim>\<open>threadFunction\<close> (lines 164 to 196).\<close>

datatype wpc =
    W_Pop                   \<comment> \<open>169, 180: \<^verbatim>\<open>PopTask\<close>, before locking \<^verbatim>\<open>_tasksMutex\<close>\<close>
  | W_Popping               \<comment> \<open>210 to 215: inside \<^verbatim>\<open>PopTask\<close>, holding \<^verbatim>\<open>_tasksMutex\<close>\<close>
  | W_Exec task             \<comment> \<open>174, 175: a task is available, about to invoke it\<close>
  | W_Check                 \<comment> \<open>177: about to read \<^verbatim>\<open>threadStopFlag\<close>\<close>
  | W_Lock                  \<comment> \<open>184: about to lock \<^verbatim>\<open>_threadsMutex\<close>\<close>
  | W_Inc                   \<comment> \<open>185: holding \<^verbatim>\<open>_threadsMutex\<close>, about to increment the idle counter\<close>
  | W_PredPop               \<comment> \<open>188: the wait predicate calls \<^verbatim>\<open>PopTask\<close>, before locking \<^verbatim>\<open>_tasksMutex\<close>\<close>
  | W_PredPopping           \<comment> \<open>188: inside that \<^verbatim>\<open>PopTask\<close>, holding both mutexes\<close>
  | W_PredTest "task option" \<comment> \<open>189: about to read \<^verbatim>\<open>_doneFlag\<close> and \<^verbatim>\<open>threadStopFlag\<close>\<close>
  | W_Wait                  \<comment> \<open>186: blocked on \<^verbatim>\<open>_signal\<close>, \<^verbatim>\<open>_threadsMutex\<close> released\<close>
  | W_Woken                 \<comment> \<open>186: woken up, about to lock \<^verbatim>\<open>_threadsMutex\<close> again\<close>
  | W_Dec "task option"     \<comment> \<open>191 to 194: the wait is over, about to decrement the idle counter\<close>
  | W_Exit                  \<comment> \<open>the thread function has returned\<close>

record worker =
  pc :: wpc
  index :: nat              \<comment> \<open>the captured \<^verbatim>\<open>index\<close>\<close>
  threadStopFlag :: bool    \<comment> \<open>the \<^verbatim>\<open>atomic<bool>\<close> shared with \<^verbatim>\<open>_threadsStopFlags\<close>\<close>
  joinable :: bool          \<comment> \<open>\<^verbatim>\<open>joinable()\<close> of its \<^verbatim>\<open>std::thread\<close> object\<close>

datatype clear_site = Line69 | Line85

text \<open>The control points of the owner thread inside the member functions.\<close>

datatype cpc =
    C_Idle                      \<comment> \<open>between two calls\<close>
  | Enqueue_Push task           \<comment> \<open>95: \<^verbatim>\<open>PushTask\<close>, before locking \<^verbatim>\<open>_tasksMutex\<close>\<close>
  | Enqueue_Pushing task        \<comment> \<open>204: inside \<^verbatim>\<open>PushTask\<close>\<close>
  | Enqueue_Lock                \<comment> \<open>96: about to lock \<^verbatim>\<open>_threadsMutex\<close>\<close>
  | Enqueue_Notify              \<comment> \<open>97, 98: \<^verbatim>\<open>notify_one\<close>, then return\<close>
  | Stop_Flags u32 u32          \<comment> \<open>64 to 67: the loop over \<^verbatim>\<open>_threadsStopFlags\<close>, \<open>i\<close> and \<open>tc\<close>\<close>
  | ClearTasks_Pop clear_site   \<comment> \<open>221: \<^verbatim>\<open>PopTask\<close>, before locking \<^verbatim>\<open>_tasksMutex\<close>\<close>
  | ClearTasks_Popping clear_site \<comment> \<open>221 to 223: inside \<^verbatim>\<open>PopTask\<close>, then \<^verbatim>\<open>delete\<close>\<close>
  | Stop_Lock                   \<comment> \<open>73: about to lock \<^verbatim>\<open>_threadsMutex\<close>\<close>
  | Stop_Notify                 \<comment> \<open>74: \<^verbatim>\<open>notify_all\<close>\<close>
  | Stop_Join u32               \<comment> \<open>77 to 83: the join loop, \<open>i\<close>\<close>
  | Stop_Clear                  \<comment> \<open>86, 87: clearing both vectors\<close>
  | Init_Lock u32               \<comment> \<open>151: about to lock \<^verbatim>\<open>_threadsMutex\<close>\<close>
  | Init_Notify u32             \<comment> \<open>152 to 156: \<^verbatim>\<open>notify_all\<close>, then both resizes\<close>

datatype thread = Owner | Thread tid

subsection \<open>The pool\<close>

record pool =
  tasks :: "task list"                  \<comment> \<open>\<^verbatim>\<open>_tasks\<close>, head first\<close>
  threads :: "tid list"                 \<comment> \<open>\<^verbatim>\<open>_threads\<close>\<close>
  threadsStopFlags :: "tid list"        \<comment> \<open>\<^verbatim>\<open>_threadsStopFlags\<close>: whose flag each entry points to\<close>
  idleThreadsCount :: int               \<comment> \<open>\<^verbatim>\<open>_idleThreadsCount\<close>\<close>
  doneFlag :: bool                      \<comment> \<open>\<^verbatim>\<open>_doneFlag\<close>\<close>
  stopFlag :: bool                      \<comment> \<open>\<^verbatim>\<open>_stopFlag\<close>\<close>
  threadsMutex :: "thread option"       \<comment> \<open>\<^verbatim>\<open>_threadsMutex\<close> and who holds it\<close>
  tasksMutex :: "thread option"         \<comment> \<open>\<^verbatim>\<open>_tasksMutex\<close> and who holds it\<close>
  workers :: "worker list"              \<comment> \<open>every thread ever started; a \<open>tid\<close> is a position here\<close>
  caller :: cpc                         \<comment> \<open>where the owner thread is\<close>
  callables :: "task \<Rightarrow> (nat \<Rightarrow> outcome) option" \<comment> \<open>the callable wrapped by each packaged task\<close>
  futures :: "task \<Rightarrow> shared_state option"      \<comment> \<open>the shared state of each result handle\<close>
  enqueued :: "task list"               \<comment> \<open>history: tasks in the order they were pushed\<close>
  executed :: "(task \<times> nat) list"      \<comment> \<open>history: invocations, with the worker id passed\<close>
  discarded :: "task list"              \<comment> \<open>history: tasks deleted by \<^verbatim>\<open>ClearTasks\<close>\<close>

text \<open>A default-constructed object before the constructor body runs.\<close>

definition init_pool :: pool where
  "init_pool =
     \<lparr>tasks = [], threads = [], threadsStopFlags = [], idleThreadsCount = 0,
      doneFlag = False, stopFlag = False, threadsMutex = None, tasksMutex = None,
      workers = [], caller = C_Idle, callables = (\<lambda>_. None), futures = (\<lambda>_. None),
      enqueued = [], executed = [], discarded = []\<rparr>"

definition ThreadsCount :: "pool \<Rightarrow> u32" where
  "ThreadsCount s = of_nat (length (threads s))"

definition IdleThreadsCount :: "pool \<Rightarrow> int" where
  "IdleThreadsCount s = idleThreadsCount s"

subsection \<open>The task queue\<close>

text \<open>The bodies of \<^verbatim>\<open>PushTask\<close> and \<^verbatim>\<open>PopTask\<close> between lock and unlock. \<^verbatim>\<open>PopTask\<close>
  returns \<open>None\<close> for \<^verbatim>\<open>false\<close> and \<open>Some t\<close> for \<^verbatim>\<open>true\<close> with \<^verbatim>\<open>task = t\<close>.\<close>

definition PushTask :: "task \<Rightarrow> pool \<Rightarrow> pool" where
  "PushTask t s = s\<lparr>tasks := tasks s @ [t]\<rparr>"

definition PopTask :: "pool \<Rightarrow> task option \<times> pool" where
  "PopTask s =
     (case tasks s of
        [] \<Rightarrow> (None, s)
      | t # q \<Rightarrow> (Some t, s\<lparr>tasks := q\<rparr>))"

text \<open>A sequence of queue operations of one thread, and what its pops return.\<close>

datatype queue_op = Push task | Pop

fun queue_ops :: "queue_op list \<Rightarrow> pool \<Rightarrow> task option list \<times> pool" where
  "queue_ops [] s = ([], s)"
| "queue_ops (Push t # ops) s = queue_ops ops (PushTask t s)"
| "queue_ops (Pop # ops) s =
     (case PopTask s of (r, s') \<Rightarrow>
        (case queue_ops ops s' of (rs, s'') \<Rightarrow> (r # rs, s'')))"

fun pushed :: "queue_op list \<Rightarrow> task list" where
  "pushed [] = []"
| "pushed (Push t # ops) = t # pushed ops"
| "pushed (Pop # ops) = pushed ops"

text \<open>The tasks of the successful pops, in order.\<close>

fun popped :: "task option list \<Rightarrow> task list" where
  "popped [] = []"
| "popped (None # rs) = popped rs"
| "popped (Some t # rs) = t # popped rs"

subsection \<open>Mutexes and the condition variable\<close>

definition lock_tasks :: "thread \<Rightarrow> pool \<Rightarrow> pool option" where
  "lock_tasks th s = (if tasksMutex s = None then Some (s\<lparr>tasksMutex := Some th\<rparr>) else None)"

definition lock_threads :: "thread \<Rightarrow> pool \<Rightarrow> pool option" where
  "lock_threads th s = (if threadsMutex s = None then Some (s\<lparr>threadsMutex := Some th\<rparr>) else None)"

definition set_pc :: "tid \<Rightarrow> wpc \<Rightarrow> pool \<Rightarrow> pool" where
  "set_pc w p s = s\<lparr>workers := (workers s)[w := (workers s ! w)\<lparr>pc := p\<rparr>]\<rparr>"

text \<open>\<^verbatim>\<open>notify_all\<close> wakes every thread blocked on \<^verbatim>\<open>_signal\<close>; \<^verbatim>\<open>notify_one\<close> wakes one of
  them, \<open>k\<close> being the choice of the scheduler, and does nothing when none waits.\<close>

definition notify_all :: "pool \<Rightarrow> pool" where
  "notify_all s =
     s\<lparr>workers := map (\<lambda>x. if pc x = W_Wait then x\<lparr>pc := W_Woken\<rparr> else x) (workers s)\<rparr>"

definition notify_one :: "tid \<Rightarrow> pool \<Rightarrow> pool option" where
  "notify_one k s =
     (if k < length (workers s) \<and> pc (workers s ! k) = W_Wait then Some (set_pc k W_Woken s)
      else if list_ex (\<lambda>x. pc x = W_Wait) (workers s) then None
      else Some s)"

subsection \<open>Invoking and deleting a task\<close>

text \<open>\<^verbatim>\<open>(*taskFunction)(index)\<close> runs \<^verbatim>\<open>(*packagedTask)(id)\<close>: the packaged task calls the
  callable and stores its value or its exception in the shared state. A packaged task
  whose shared state is already set leaves it as it is.\<close>

definition invoke :: "task \<Rightarrow> nat \<Rightarrow> pool \<Rightarrow> pool" where
  "invoke t i s =
     s\<lparr>futures := (case (callables s t, futures s t) of
                     (Some f, Some Pending) \<Rightarrow> (futures s)(t \<mapsto> Ready (f i))
                   | _ \<Rightarrow> futures s),
       executed := executed s @ [(t, i)]\<rparr>"

text \<open>\<^verbatim>\<open>delete pTask\<close> in \<^verbatim>\<open>ClearTasks\<close> destroys the closure and with it the last
  reference to the packaged task, which was never invoked: its shared state becomes
  \<^verbatim>\<open>broken_promise\<close>.\<close>

definition discard :: "task \<Rightarrow> pool \<Rightarrow> pool" where
  "discard t s =
     s\<lparr>futures := (case futures s t of
                     Some Pending \<Rightarrow> (futures s)(t \<mapsto> Broken)
                   | _ \<Rightarrow> futures s),
       discarded := discarded s @ [t]\<rparr>"

subsection \<open>The worker threads\<close>

text \<open>One step of \<^verbatim>\<open>threadFunction\<close> of thread \<open>w\<close>. The \<^verbatim>\<open>unique_ptr\<close> of line 174
  deletes the task after it was invoked, which changes no shared state. The wait of
  line 186 is \<^verbatim>\<open>while (!pred()) wait(lock)\<close>: the predicate runs with \<^verbatim>\<open>_threadsMutex\<close>
  held, first before any blocking and then after each wake-up.\<close>

definition threadFunction :: "tid \<Rightarrow> pool \<Rightarrow> pool option" where
  "threadFunction w s =
     (if w < length (workers s) then
        (case pc (workers s ! w) of
           W_Pop \<Rightarrow> map_option (set_pc w W_Popping) (lock_tasks (Thread w) s)
         | W_Popping \<Rightarrow>
             (case PopTask s of (isTaskAvailable, s') \<Rightarrow>
                Some (set_pc w (case isTaskAvailable of Some t \<Rightarrow> W_Exec t | None \<Rightarrow> W_Lock)
                        (s'\<lparr>tasksMutex := None\<rparr>)))
         | W_Exec t \<Rightarrow> Some (set_pc w W_Check (invoke t (index (workers s ! w)) s))
         | W_Check \<Rightarrow>
             Some (set_pc w (if threadStopFlag (workers s ! w) then W_Exit else W_Pop) s)
         | W_Lock \<Rightarrow> map_option (set_pc w W_Inc) (lock_threads (Thread w) s)
         | W_Inc \<Rightarrow> Some (set_pc w W_PredPop (s\<lparr>idleThreadsCount := idleThreadsCount s + 1\<rparr>))
         | W_PredPop \<Rightarrow> map_option (set_pc w W_PredPopping) (lock_tasks (Thread w) s)
         | W_PredPopping \<Rightarrow>
             (case PopTask s of (isTaskAvailable, s') \<Rightarrow>
                Some (set_pc w (W_PredTest isTaskAvailable) (s'\<lparr>tasksMutex := None\<rparr>)))
         | W_PredTest isTaskAvailable \<Rightarrow>
             (if isTaskAvailable \<noteq> None \<or> doneFlag s \<or> threadStopFlag (workers s ! w)
              then Some (set_pc w (W_Dec isTaskAvailable) s)
              else Some (set_pc w W_Wait (s\<lparr>threadsMutex := None\<rparr>)))
         | W_Wait \<Rightarrow> None
         | W_Woken \<Rightarrow> map_option (set_pc w W_PredPop) (lock_threads (Thread w) s)
         | W_Dec isTaskAvailable \<Rightarrow>
             Some (set_pc w (case isTaskAvailable of Some t \<Rightarrow> W_Exec t | None \<Rightarrow> W_Exit)
                     (s\<lparr>idleThreadsCount := idleThreadsCount s - 1, threadsMutex := None\<rparr>))
         | W_Exit \<Rightarrow> None)
      else None)"

text \<open>A condition variable may wake a waiting thread without a notify.\<close>

definition spurious_wakeup :: "tid \<Rightarrow> pool \<Rightarrow> pool option" where
  "spurious_wakeup w s =
     (if w < length (workers s) \<and> pc (workers s ! w) = W_Wait then Some (set_pc w W_Woken s)
      else None)"

subsection \<open>Init\<close>

definition set_flag :: "tid \<Rightarrow> pool \<Rightarrow> pool" where
  "set_flag w s = s\<lparr>workers := (workers s)[w := (workers s ! w)\<lparr>threadStopFlag := True\<rparr>]\<rparr>"

definition set_joinable :: "tid \<Rightarrow> bool \<Rightarrow> pool \<Rightarrow> pool" where
  "set_joinable w b s = s\<lparr>workers := (workers s)[w := (workers s ! w)\<lparr>joinable := b\<rparr>]\<rparr>"

text \<open>Lines 137 and 138 with \<^verbatim>\<open>InitThead\<close>: a fresh flag and a fresh thread for slot \<open>i\<close>,
  which is the next free slot; the thread starts at the top of \<^verbatim>\<open>threadFunction\<close>.\<close>

definition InitThead :: "nat \<Rightarrow> pool \<Rightarrow> pool" where
  "InitThead i s =
     s\<lparr>threads := threads s @ [length (workers s)],
       threadsStopFlags := threadsStopFlags s @ [length (workers s)],
       workers := workers s @ [\<lparr>pc = W_Pop, index = i, threadStopFlag = False, joinable = True\<rparr>]\<rparr>"

text \<open>The loop of lines 143 to 147, \<^verbatim>\<open>for (unsigned i = current - 1; i >= threadsCount; i--)\<close>,
  on 32-bit unsigned \<open>i\<close>. Indexing a vector out of range and detaching a thread that is
  not joinable are errors.\<close>

partial_function (option) shrink_loop :: "u32 \<Rightarrow> u32 \<Rightarrow> pool \<Rightarrow> (error + pool) option" where
  "shrink_loop i threadsCount s =
     (if threadsCount \<le> i then
        (if unat i < length (threadsStopFlags s) \<and> unat i < length (threads s) then
           (if joinable (workers s ! (threads s ! unat i)) then
              shrink_loop (i - 1) threadsCount
                (set_joinable (threads s ! unat i) False (set_flag (threadsStopFlags s ! unat i) s))
            else Some (Inl NotJoinable))
         else Some (Inl OutOfRange))
      else Some (Inr s))"

declare shrink_loop.simps [code]

text \<open>Lines 123 to 147: everything before the lock of line 151. Growing runs to the end
  of \<^verbatim>\<open>Init\<close>; shrinking stops before the lock.\<close>

definition Init_call :: "u32 \<Rightarrow> pool \<Rightarrow> (error + pool) option" where
  "Init_call threadsCount s =
     (if stopFlag s \<or> doneFlag s then Some (Inr s)
      else let currentThreadsCount = ThreadsCount s in
        if currentThreadsCount = threadsCount then Some (Inr s)
        else if currentThreadsCount < threadsCount then
          Some (Inr (fold InitThead [unat currentThreadsCount..<unat threadsCount] s))
        else
          (case shrink_loop (currentThreadsCount - 1) threadsCount s of
             Some (Inr s') \<Rightarrow> Some (Inr (s'\<lparr>caller := Init_Lock threadsCount\<rparr>))
           | r \<Rightarrow> r))"

text \<open>Lines 152 to 156, with \<^verbatim>\<open>_threadsMutex\<close> held: \<^verbatim>\<open>notify_all\<close>, unlock, both resizes.\<close>

definition Init_finish :: "u32 \<Rightarrow> pool \<Rightarrow> pool" where
  "Init_finish threadsCount s =
     (notify_all s)\<lparr>threadsMutex := None,
                    threads := take (unat threadsCount) (threads s),
                    threadsStopFlags := take (unat threadsCount) (threadsStopFlags s),
                    caller := C_Idle\<rparr>"

text \<open>\<^verbatim>\<open>Init\<close> run by the owner with no other thread holding \<^verbatim>\<open>_threadsMutex\<close>.\<close>

definition Init :: "u32 \<Rightarrow> pool \<Rightarrow> (error + pool) option" where
  "Init threadsCount s =
     (case Init_call threadsCount s of
        Some (Inr s') \<Rightarrow>
          (if caller s' = Init_Lock threadsCount
           then map_option (\<lambda>s''. Inr (Init_finish threadsCount s'')) (lock_threads Owner s')
           else Some (Inr s'))
      | r \<Rightarrow> r)"

subsection \<open>The owner thread\<close>

datatype call =
    Enqueue task "nat \<Rightarrow> outcome"   \<comment> \<open>\<^verbatim>\<open>Enqueue(task)\<close>: the new task object and the callable\<close>
  | Stop bool                         \<comment> \<open>\<^verbatim>\<open>Stop(waitForThreads)\<close>; the destructor is \<^verbatim>\<open>Stop(true)\<close>\<close>
  | Resize u32                        \<comment> \<open>\<^verbatim>\<open>Init(threadsCount)\<close>; the constructors call it first\<close>

text \<open>Entering a member function from \<open>C_Idle\<close>, up to its first lock or loop.
  \<^verbatim>\<open>Enqueue\<close> (lines 93, 94) allocates the packaged task, its shared state and the task
  object, which is a new object: no earlier task has its identity.\<close>

definition enter :: "call \<Rightarrow> pool \<Rightarrow> pool option" where
  "enter c s =
     (if caller s \<noteq> C_Idle then None
      else case c of
        Enqueue t f \<Rightarrow>
          (if futures s t = None
           then Some (s\<lparr>callables := (callables s)(t \<mapsto> f), futures := (futures s)(t \<mapsto> Pending),
                        caller := Enqueue_Push t\<rparr>)
           else None)
      | Stop waitForThreads \<Rightarrow>
          (if waitForThreads then
             (if doneFlag s \<or> stopFlag s then Some s
              else Some (s\<lparr>doneFlag := True, caller := Stop_Lock\<rparr>))
           else
             (if stopFlag s then Some s
              else Some (s\<lparr>stopFlag := True, caller := Stop_Flags 0 (ThreadsCount s)\<rparr>)))
      | Resize n \<Rightarrow> (case Init_call n s of Some (Inr s') \<Rightarrow> Some s' | _ \<Rightarrow> None))"

text \<open>The next step of the owner inside a member function; \<open>k\<close> is the scheduler's choice
  for \<^verbatim>\<open>notify_one\<close>. A thread that has returned from \<^verbatim>\<open>threadFunction\<close> can be joined.\<close>

definition owner_step :: "tid \<Rightarrow> pool \<Rightarrow> pool option" where
  "owner_step k s =
     (case caller s of
        C_Idle \<Rightarrow> None
      | Enqueue_Push t \<Rightarrow> map_option (\<lambda>s'. s'\<lparr>caller := Enqueue_Pushing t\<rparr>) (lock_tasks Owner s)
      | Enqueue_Pushing t \<Rightarrow>
          Some ((PushTask t s)\<lparr>tasksMutex := None, enqueued := enqueued s @ [t],
                                caller := Enqueue_Lock\<rparr>)
      | Enqueue_Lock \<Rightarrow> map_option (\<lambda>s'. s'\<lparr>caller := Enqueue_Notify\<rparr>) (lock_threads Owner s)
      | Enqueue_Notify \<Rightarrow>
          map_option (\<lambda>s'. s'\<lparr>threadsMutex := None, caller := C_Idle\<rparr>) (notify_one k s)
      | Stop_Flags i tc \<Rightarrow>
          (if i < tc then
             (if unat i < length (threadsStopFlags s)
              then Some ((set_flag (threadsStopFlags s ! unat i) s)\<lparr>caller := Stop_Flags (i + 1) tc\<rparr>)
              else None)
           else Some (s\<lparr>caller := ClearTasks_Pop Line69\<rparr>))
      | ClearTasks_Pop site \<Rightarrow>
          map_option (\<lambda>s'. s'\<lparr>caller := ClearTasks_Popping site\<rparr>) (lock_tasks Owner s)
      | ClearTasks_Popping site \<Rightarrow>
          (case PopTask s of
             (Some pTask, s') \<Rightarrow>
               Some ((discard pTask s')\<lparr>tasksMutex := None, caller := ClearTasks_Pop site\<rparr>)
           | (None, s') \<Rightarrow>
               Some (s'\<lparr>tasksMutex := None,
                        caller := (case site of Line69 \<Rightarrow> Stop_Lock | Line85 \<Rightarrow> Stop_Clear)\<rparr>))
      | Stop_Lock \<Rightarrow> map_option (\<lambda>s'. s'\<lparr>caller := Stop_Notify\<rparr>) (lock_threads Owner s)
      | Stop_Notify \<Rightarrow> Some ((notify_all s)\<lparr>threadsMutex := None, caller := Stop_Join 0\<rparr>)
      | Stop_Join i \<Rightarrow>
          (if i < ThreadsCount s then
             (if unat i < length (threads s) then
                (if joinable (workers s ! (threads s ! unat i)) then
                   (if pc (workers s ! (threads s ! unat i)) = W_Exit
                    then Some ((set_joinable (threads s ! unat i) False s)\<lparr>caller := Stop_Join (i + 1)\<rparr>)
                    else None)
                 else Some (s\<lparr>caller := Stop_Join (i + 1)\<rparr>))
              else None)
           else Some (s\<lparr>caller := ClearTasks_Pop Line85\<rparr>))
      | Stop_Clear \<Rightarrow> Some (s\<lparr>threads := [], threadsStopFlags := [], caller := C_Idle\<rparr>)
      | Init_Lock n \<Rightarrow> map_option (\<lambda>s'. s'\<lparr>caller := Init_Notify n\<rparr>) (lock_threads Owner s)
      | Init_Notify n \<Rightarrow> Some (Init_finish n s))"

subsection \<open>Executions\<close>

datatype action =
    Call call          \<comment> \<open>the owner enters a member function\<close>
  | Own tid            \<comment> \<open>the owner's next step inside it\<close>
  | Work tid           \<comment> \<open>the next step of a worker thread\<close>
  | Spurious tid       \<comment> \<open>a spurious wake-up of a waiting worker\<close>

definition step :: "action \<Rightarrow> pool \<Rightarrow> pool option" where
  "step a s =
     (case a of
        Call c \<Rightarrow> enter c s
      | Own k \<Rightarrow> owner_step k s
      | Work w \<Rightarrow> threadFunction w s
      | Spurious w \<Rightarrow> spurious_wakeup w s)"

text \<open>Running a schedule; \<open>None\<close> when one of its steps is not enabled.\<close>

fun run :: "action list \<Rightarrow> pool \<Rightarrow> pool option" where
  "run [] s = Some s"
| "run (a # as) s = (case step a s of None \<Rightarrow> None | Some s' \<Rightarrow> run as s')"

inductive reachable :: "pool \<Rightarrow> bool" where
  reachable_init: "reachable init_pool"
| reachable_step: "reachable s \<Longrightarrow> step a s = Some s' \<Longrightarrow> reachable s'"

section \<open>How the building blocks act on the fields\<close>

lemma set_pc_simps [simp]:
  "tasks (set_pc w p s) = tasks s" "threads (set_pc w p s) = threads s"
  "threadsStopFlags (set_pc w p s) = threadsStopFlags s"
  "idleThreadsCount (set_pc w p s) = idleThreadsCount s"
  "doneFlag (set_pc w p s) = doneFlag s" "stopFlag (set_pc w p s) = stopFlag s"
  "threadsMutex (set_pc w p s) = threadsMutex s" "tasksMutex (set_pc w p s) = tasksMutex s"
  "caller (set_pc w p s) = caller s" "callables (set_pc w p s) = callables s"
  "futures (set_pc w p s) = futures s" "enqueued (set_pc w p s) = enqueued s"
  "executed (set_pc w p s) = executed s" "discarded (set_pc w p s) = discarded s"
  "length (workers (set_pc w p s)) = length (workers s)"
  by (simp_all add: set_pc_def)

lemma set_pc_nth [simp]:
  "w' < length (workers s) \<Longrightarrow>
     pc (workers (set_pc w p s) ! w') = (if w' = w then p else pc (workers s ! w'))"
  "w' < length (workers s) \<Longrightarrow> index (workers (set_pc w p s) ! w') = index (workers s ! w')"
  "w' < length (workers s) \<Longrightarrow>
     threadStopFlag (workers (set_pc w p s) ! w') = threadStopFlag (workers s ! w')"
  "w' < length (workers s) \<Longrightarrow> joinable (workers (set_pc w p s) ! w') = joinable (workers s ! w')"
  by (cases "w' = w"; simp add: set_pc_def)+

lemma set_flag_simps [simp]:
  "tasks (set_flag w s) = tasks s" "threads (set_flag w s) = threads s"
  "threadsStopFlags (set_flag w s) = threadsStopFlags s"
  "idleThreadsCount (set_flag w s) = idleThreadsCount s"
  "doneFlag (set_flag w s) = doneFlag s" "stopFlag (set_flag w s) = stopFlag s"
  "threadsMutex (set_flag w s) = threadsMutex s" "tasksMutex (set_flag w s) = tasksMutex s"
  "caller (set_flag w s) = caller s" "callables (set_flag w s) = callables s"
  "futures (set_flag w s) = futures s" "enqueued (set_flag w s) = enqueued s"
  "executed (set_flag w s) = executed s" "discarded (set_flag w s) = discarded s"
  "length (workers (set_flag w s)) = length (workers s)"
  by (simp_all add: set_flag_def)

lemma set_flag_nth [simp]:
  "w' < length (workers s) \<Longrightarrow> pc (workers (set_flag w s) ! w') = pc (workers s ! w')"
  "w' < length (workers s) \<Longrightarrow> index (workers (set_flag w s) ! w') = index (workers s ! w')"
  "w' < length (workers s) \<Longrightarrow>
     threadStopFlag (workers (set_flag w s) ! w') = (w' = w \<or> threadStopFlag (workers s ! w'))"
  "w' < length (workers s) \<Longrightarrow> joinable (workers (set_flag w s) ! w') = joinable (workers s ! w')"
  by (cases "w' = w"; simp add: set_flag_def)+

lemma set_joinable_simps [simp]:
  "tasks (set_joinable w b s) = tasks s" "threads (set_joinable w b s) = threads s"
  "threadsStopFlags (set_joinable w b s) = threadsStopFlags s"
  "idleThreadsCount (set_joinable w b s) = idleThreadsCount s"
  "doneFlag (set_joinable w b s) = doneFlag s" "stopFlag (set_joinable w b s) = stopFlag s"
  "threadsMutex (set_joinable w b s) = threadsMutex s"
  "tasksMutex (set_joinable w b s) = tasksMutex s"
  "caller (set_joinable w b s) = caller s" "callables (set_joinable w b s) = callables s"
  "futures (set_joinable w b s) = futures s" "enqueued (set_joinable w b s) = enqueued s"
  "executed (set_joinable w b s) = executed s" "discarded (set_joinable w b s) = discarded s"
  "length (workers (set_joinable w b s)) = length (workers s)"
  by (simp_all add: set_joinable_def)

lemma set_joinable_nth [simp]:
  "w' < length (workers s) \<Longrightarrow> pc (workers (set_joinable w b s) ! w') = pc (workers s ! w')"
  "w' < length (workers s) \<Longrightarrow> index (workers (set_joinable w b s) ! w') = index (workers s ! w')"
  "w' < length (workers s) \<Longrightarrow>
     threadStopFlag (workers (set_joinable w b s) ! w') = threadStopFlag (workers s ! w')"
  "w' < length (workers s) \<Longrightarrow>
     joinable (workers (set_joinable w b s) ! w') = (if w' = w then b else joinable (workers s ! w'))"
  by (cases "w' = w"; simp add: set_joinable_def)+

lemma invoke_simps [simp]:
  "tasks (invoke t i s) = tasks s" "threads (invoke t i s) = threads s"
  "threadsStopFlags (invoke t i s) = threadsStopFlags s"
  "idleThreadsCount (invoke t i s) = idleThreadsCount s"
  "doneFlag (invoke t i s) = doneFlag s" "stopFlag (invoke t i s) = stopFlag s"
  "threadsMutex (invoke t i s) = threadsMutex s" "tasksMutex (invoke t i s) = tasksMutex s"
  "caller (invoke t i s) = caller s" "callables (invoke t i s) = callables s"
  "enqueued (invoke t i s) = enqueued s"
  "executed (invoke t i s) = executed s @ [(t, i)]" "discarded (invoke t i s) = discarded s"
  "workers (invoke t i s) = workers s"
  by (simp_all add: invoke_def)

lemma discard_simps [simp]:
  "tasks (discard t s) = tasks s" "threads (discard t s) = threads s"
  "threadsStopFlags (discard t s) = threadsStopFlags s"
  "idleThreadsCount (discard t s) = idleThreadsCount s"
  "doneFlag (discard t s) = doneFlag s" "stopFlag (discard t s) = stopFlag s"
  "threadsMutex (discard t s) = threadsMutex s" "tasksMutex (discard t s) = tasksMutex s"
  "caller (discard t s) = caller s" "callables (discard t s) = callables s"
  "enqueued (discard t s) = enqueued s"
  "executed (discard t s) = executed s" "discarded (discard t s) = discarded s @ [t]"
  "workers (discard t s) = workers s"
  by (simp_all add: discard_def)

lemma notify_all_simps [simp]:
  "tasks (notify_all s) = tasks s" "threads (notify_all s) = threads s"
  "threadsStopFlags (notify_all s) = threadsStopFlags s"
  "idleThreadsCount (notify_all s) = idleThreadsCount s"
  "doneFlag (notify_all s) = doneFlag s" "stopFlag (notify_all s) = stopFlag s"
  "threadsMutex (notify_all s) = threadsMutex s" "tasksMutex (notify_all s) = tasksMutex s"
  "caller (notify_all s) = caller s" "callables (notify_all s) = callables s"
  "futures (notify_all s) = futures s" "enqueued (notify_all s) = enqueued s"
  "executed (notify_all s) = executed s" "discarded (notify_all s) = discarded s"
  "length (workers (notify_all s)) = length (workers s)"
  by (simp_all add: notify_all_def)

lemma notify_all_nth [simp]:
  "w < length (workers s) \<Longrightarrow>
     pc (workers (notify_all s) ! w) = (if pc (workers s ! w) = W_Wait then W_Woken else pc (workers s ! w))"
  "w < length (workers s) \<Longrightarrow> index (workers (notify_all s) ! w) = index (workers s ! w)"
  "w < length (workers s) \<Longrightarrow>
     threadStopFlag (workers (notify_all s) ! w) = threadStopFlag (workers s ! w)"
  "w < length (workers s) \<Longrightarrow> joinable (workers (notify_all s) ! w) = joinable (workers s ! w)"
  by (simp_all add: notify_all_def)

text \<open>Growing: the new threads take the next thread ids and the next slots.\<close>

definition fresh_worker :: "nat \<Rightarrow> worker" where
  "fresh_worker i = \<lparr>pc = W_Pop, index = i, threadStopFlag = False, joinable = True\<rparr>"

lemma fold_InitThead:
  "fold InitThead is s =
     s\<lparr>threads := threads s @ [length (workers s)..<length (workers s) + length is],
       threadsStopFlags := threadsStopFlags s @ [length (workers s)..<length (workers s) + length is],
       workers := workers s @ map fresh_worker is\<rparr>"
proof (induction "is" rule: rev_induct)
  case Nil
  then show ?case by simp
next
  case (snoc i "is")
  then show ?case
    by (simp add: InitThead_def fresh_worker_def)
qed

text \<open>Shrinking: what the loop of line 143 has done when it ends without an error. It
  has visited the slots \<open>i\<close> down to \<open>threadsCount\<close>; this is impossible at
  \<open>threadsCount = 0\<close> for vectors shorter than \<open>2^32\<close>.\<close>

definition mark_at :: "nat \<Rightarrow> pool \<Rightarrow> pool" where
  "mark_at j s = set_joinable (threads s ! j) False (set_flag (threadsStopFlags s ! j) s)"

lemma mark_at_simps [simp]:
  "threads (mark_at j s) = threads s" "threadsStopFlags (mark_at j s) = threadsStopFlags s"
  by (simp_all add: mark_at_def)

lemma fold_mark_at_simps [simp]:
  "tasks (fold mark_at js s) = tasks s" "threads (fold mark_at js s) = threads s"
  "threadsStopFlags (fold mark_at js s) = threadsStopFlags s"
  "idleThreadsCount (fold mark_at js s) = idleThreadsCount s"
  "doneFlag (fold mark_at js s) = doneFlag s" "stopFlag (fold mark_at js s) = stopFlag s"
  "threadsMutex (fold mark_at js s) = threadsMutex s" "tasksMutex (fold mark_at js s) = tasksMutex s"
  "caller (fold mark_at js s) = caller s" "callables (fold mark_at js s) = callables s"
  "futures (fold mark_at js s) = futures s" "enqueued (fold mark_at js s) = enqueued s"
  "executed (fold mark_at js s) = executed s" "discarded (fold mark_at js s) = discarded s"
  "length (workers (fold mark_at js s)) = length (workers s)"
  by (induction js arbitrary: s; simp add: mark_at_def)+

lemma fold_mark_at_nth [simp]:
  "w < length (workers s) \<Longrightarrow> pc (workers (fold mark_at js s) ! w) = pc (workers s ! w)"
  "w < length (workers s) \<Longrightarrow> index (workers (fold mark_at js s) ! w) = index (workers s ! w)"
  "w < length (workers s) \<Longrightarrow>
     threadStopFlag (workers (fold mark_at js s) ! w)
       = (threadStopFlag (workers s ! w) \<or> w \<in> (\<lambda>j. threadsStopFlags s ! j) ` set js)"
  "w < length (workers s) \<Longrightarrow>
     joinable (workers (fold mark_at js s) ! w)
       = (joinable (workers s ! w) \<and> w \<notin> (\<lambda>j. threads s ! j) ` set js)"
  by (induction js arbitrary: s; auto simp add: mark_at_def)+

lemma unat_minus_one_u32: "i \<noteq> 0 \<Longrightarrow> unat (i - 1 :: u32) = unat i - 1"
  by (simp add: unat_minus_one)

definition shrink_result :: "u32 \<Rightarrow> u32 \<Rightarrow> pool \<Rightarrow> error + pool \<Rightarrow> bool" where
  "shrink_result i n s r \<longleftrightarrow>
     (length (threads s) < 2 ^ 32 \<longrightarrow>
       (\<forall>s'. r = Inr s' \<longrightarrow>
          (if n \<le> i
           then 0 < n \<and> unat i < length (threads s) \<and> unat i < length (threadsStopFlags s)
                \<and> s' = fold mark_at (rev [unat n..<Suc (unat i)]) s
           else s' = s)))"

lemma shrink_loop_result:
  assumes "shrink_loop i n s = Some r"
  shows "shrink_result i n s r"
proof (rule shrink_loop.raw_induct[where P = shrink_result, OF _ assms])
  fix f i n s r
  assume IH: "\<And>i n s r. f i n s = Some r \<Longrightarrow> shrink_result i n s r"
    and body: "(if n \<le> i
      then if unat i < length (threadsStopFlags s) \<and> unat i < length (threads s)
           then if joinable (workers s ! (threads s ! unat i))
                then f (i - 1) n (set_joinable (threads s ! unat i) False
                                   (set_flag (threadsStopFlags s ! unat i) s))
                else Some (Inl NotJoinable)
           else Some (Inl OutOfRange)
      else Some (Inr s)) = Some r"
  show "shrink_result i n s r"
    unfolding shrink_result_def
  proof (intro impI allI)
    fix s'
    assume len: "length (threads s) < 2 ^ 32" and r: "r = Inr s'"
    show "if n \<le> i
         then 0 < n \<and> unat i < length (threads s) \<and> unat i < length (threadsStopFlags s)
              \<and> s' = fold mark_at (rev [unat n..<Suc (unat i)]) s
         else s' = s"
    proof (cases "n \<le> i")
      case False
      with body r show ?thesis by simp
    next
      case True
      with body r have rng: "unat i < length (threadsStopFlags s)" "unat i < length (threads s)"
        and rec: "f (i - 1) n (mark_at (unat i) s) = Some (Inr s')"
        by (auto simp: mark_at_def split: if_splits)
      from IH[OF rec] len
      have ih: "if n \<le> i - 1
         then 0 < n \<and> s' = fold mark_at (rev [unat n..<Suc (unat (i - 1))]) (mark_at (unat i) s)
         else s' = mark_at (unat i) s"
        by (auto simp: shrink_result_def split: if_splits)
      show ?thesis
      proof (cases "i = 0")
        case i0: True
        with True have "n = 0" by simp
        with ih i0 show ?thesis by simp
      next
        case False
        then have u: "unat (i - 1) = unat i - 1" and pos: "0 < unat i"
          by (simp_all add: unat_minus_one_u32 unat_gt_0)
        show ?thesis
        proof (cases "n \<le> i - 1")
          case le: True
          then have "unat n \<le> unat i - 1" using u by (simp add: word_le_nat_alt)
          with pos have "rev [unat n..<Suc (unat i)] = unat i # rev [unat n..<unat i]"
            by simp
          with ih le u pos True rng show ?thesis by simp
        next
          case nle: False
          then have "unat i - 1 < unat n" using u by (simp add: word_le_nat_alt)
          moreover from True have "unat n \<le> unat i" by (simp add: word_le_nat_alt)
          ultimately have eq: "unat n = unat i" using pos by simp
          then have "0 < n" using pos by (simp add: word_less_nat_alt)
          with ih nle eq True rng show ?thesis by simp
        qed
      qed
    qed
  qed
qed

lemma unat_ThreadsCount: "length (threads s) < 2 ^ 32 \<Longrightarrow> unat (ThreadsCount s) = length (threads s)"
  by (simp add: ThreadsCount_def unat_of_nat)

lemma u32_less_Suc: "(i::u32) < tc \<Longrightarrow> unat (i + 1) = Suc (unat i)"
  by unat_arith

lemma u32_Suc_le: "(i::u32) < tc \<Longrightarrow> i + 1 \<le> tc"
  by (simp add: inc_le)

lemma shrink_loop_Inr:
  assumes "shrink_loop (ThreadsCount s - 1) n s = Some (Inr s0)" "n < ThreadsCount s"
    "length (threads s) < 2 ^ 32"
  shows "0 < n \<and> s0 = fold mark_at (rev [unat n..<length (threads s)]) s"
proof -
  from assms(2) have pos: "ThreadsCount s \<noteq> 0" by auto
  then have u: "unat (ThreadsCount s - 1) = length (threads s) - 1" and l: "0 < length (threads s)"
    using unat_ThreadsCount[OF assms(3)] by (auto simp: unat_minus_one_u32 ThreadsCount_def)
  from l have S: "Suc (length (threads s) - 1) = length (threads s)" by simp
  from assms(2) have "unat n < unat (ThreadsCount s)" by (simp add: word_less_nat_alt)
  then have "unat n \<le> unat (ThreadsCount s - 1)" using u unat_ThreadsCount[OF assms(3)] by simp
  then have le: "n \<le> ThreadsCount s - 1" by (simp add: word_le_nat_alt)
  from shrink_loop_result[OF assms(1)] assms(3) le
  have "0 < n \<and> s0 = fold mark_at (rev [unat n..<Suc (unat (ThreadsCount s - 1))]) s"
    unfolding shrink_result_def by simp
  then show ?thesis unfolding u S .
qed

lemma Init_finish_simps [simp]:
  "tasks (Init_finish n s) = tasks s"
  "threads (Init_finish n s) = take (unat n) (threads s)"
  "threadsStopFlags (Init_finish n s) = take (unat n) (threadsStopFlags s)"
  "idleThreadsCount (Init_finish n s) = idleThreadsCount s"
  "doneFlag (Init_finish n s) = doneFlag s" "stopFlag (Init_finish n s) = stopFlag s"
  "threadsMutex (Init_finish n s) = None" "tasksMutex (Init_finish n s) = tasksMutex s"
  "caller (Init_finish n s) = C_Idle" "callables (Init_finish n s) = callables s"
  "futures (Init_finish n s) = futures s" "enqueued (Init_finish n s) = enqueued s"
  "executed (Init_finish n s) = executed s" "discarded (Init_finish n s) = discarded s"
  "workers (Init_finish n s) = workers (notify_all s)"
  by (simp_all add: Init_finish_def)

section \<open>The steps, one by one\<close>

lemma threadFunction_cases [consumes 1, case_names Pop Popping_some Popping_none Exec Check_exit
    Check_loop Lock Inc PredPop PredPopping_some PredPopping_none PredTest_true PredTest_wait
    Woken Dec_some Dec_none]:
  assumes "threadFunction w s = Some s'"
  obtains
    (Pop) "w < length (workers s)" "pc (workers s ! w) = W_Pop" "tasksMutex s = None"
      "s' = set_pc w W_Popping (s\<lparr>tasksMutex := Some (Thread w)\<rparr>)"
  | (Popping_some) t q where "w < length (workers s)" "pc (workers s ! w) = W_Popping"
      "tasks s = t # q" "s' = set_pc w (W_Exec t) (s\<lparr>tasks := q, tasksMutex := None\<rparr>)"
  | (Popping_none) "w < length (workers s)" "pc (workers s ! w) = W_Popping"
      "tasks s = []" "s' = set_pc w W_Lock (s\<lparr>tasksMutex := None\<rparr>)"
  | (Exec) t where "w < length (workers s)" "pc (workers s ! w) = W_Exec t"
      "s' = set_pc w W_Check (invoke t (index (workers s ! w)) s)"
  | (Check_exit) "w < length (workers s)" "pc (workers s ! w) = W_Check"
      "threadStopFlag (workers s ! w)" "s' = set_pc w W_Exit s"
  | (Check_loop) "w < length (workers s)" "pc (workers s ! w) = W_Check"
      "\<not> threadStopFlag (workers s ! w)" "s' = set_pc w W_Pop s"
  | (Lock) "w < length (workers s)" "pc (workers s ! w) = W_Lock" "threadsMutex s = None"
      "s' = set_pc w W_Inc (s\<lparr>threadsMutex := Some (Thread w)\<rparr>)"
  | (Inc) "w < length (workers s)" "pc (workers s ! w) = W_Inc"
      "s' = set_pc w W_PredPop (s\<lparr>idleThreadsCount := idleThreadsCount s + 1\<rparr>)"
  | (PredPop) "w < length (workers s)" "pc (workers s ! w) = W_PredPop" "tasksMutex s = None"
      "s' = set_pc w W_PredPopping (s\<lparr>tasksMutex := Some (Thread w)\<rparr>)"
  | (PredPopping_some) t q where "w < length (workers s)" "pc (workers s ! w) = W_PredPopping"
      "tasks s = t # q"
      "s' = set_pc w (W_PredTest (Some t)) (s\<lparr>tasks := q, tasksMutex := None\<rparr>)"
  | (PredPopping_none) "w < length (workers s)" "pc (workers s ! w) = W_PredPopping"
      "tasks s = []" "s' = set_pc w (W_PredTest None) (s\<lparr>tasksMutex := None\<rparr>)"
  | (PredTest_true) r where "w < length (workers s)" "pc (workers s ! w) = W_PredTest r"
      "r \<noteq> None \<or> doneFlag s \<or> threadStopFlag (workers s ! w)" "s' = set_pc w (W_Dec r) s"
  | (PredTest_wait) "w < length (workers s)" "pc (workers s ! w) = W_PredTest None"
      "\<not> doneFlag s" "\<not> threadStopFlag (workers s ! w)"
      "s' = set_pc w W_Wait (s\<lparr>threadsMutex := None\<rparr>)"
  | (Woken) "w < length (workers s)" "pc (workers s ! w) = W_Woken" "threadsMutex s = None"
      "s' = set_pc w W_PredPop (s\<lparr>threadsMutex := Some (Thread w)\<rparr>)"
  | (Dec_some) t where "w < length (workers s)" "pc (workers s ! w) = W_Dec (Some t)"
      "s' = set_pc w (W_Exec t)
              (s\<lparr>idleThreadsCount := idleThreadsCount s - 1, threadsMutex := None\<rparr>)"
  | (Dec_none) "w < length (workers s)" "pc (workers s ! w) = W_Dec None"
      "s' = set_pc w W_Exit
              (s\<lparr>idleThreadsCount := idleThreadsCount s - 1, threadsMutex := None\<rparr>)"
proof -
  from assms have w: "w < length (workers s)"
    by (simp add: threadFunction_def split: if_splits)
  show thesis
  proof (cases "pc (workers s ! w)")
    case W_Pop
    with assms w show ?thesis
      by (intro Pop) (auto simp: threadFunction_def lock_tasks_def split: if_splits)
  next
    case W_Popping
    with assms w show ?thesis
      by (cases "tasks s")
         (auto simp: threadFunction_def PopTask_def intro: Popping_some Popping_none)
  next
    case (W_Exec t)
    with assms w show ?thesis by (auto simp: threadFunction_def intro: Exec)
  next
    case W_Check
    with assms w show ?thesis
      by (cases "threadStopFlag (workers s ! w)")
         (auto simp: threadFunction_def intro: Check_exit Check_loop)
  next
    case W_Lock
    with assms w show ?thesis
      by (intro Lock) (auto simp: threadFunction_def lock_threads_def split: if_splits)
  next
    case W_Inc
    with assms w show ?thesis by (auto simp: threadFunction_def intro: Inc)
  next
    case W_PredPop
    with assms w show ?thesis
      by (intro PredPop) (auto simp: threadFunction_def lock_tasks_def split: if_splits)
  next
    case W_PredPopping
    with assms w show ?thesis
      by (cases "tasks s")
         (auto simp: threadFunction_def PopTask_def intro: PredPopping_some PredPopping_none)
  next
    case (W_PredTest r)
    show ?thesis
    proof (cases "r \<noteq> None \<or> doneFlag s \<or> threadStopFlag (workers s ! w)")
      case True
      with assms w W_PredTest show ?thesis
        by (intro PredTest_true[of r]) (auto simp: threadFunction_def)
    next
      case False
      with assms w W_PredTest show ?thesis
        by (intro PredTest_wait) (auto simp: threadFunction_def)
    qed
  next
    case W_Wait
    with assms w show ?thesis by (simp add: threadFunction_def)
  next
    case W_Woken
    with assms w show ?thesis
      by (intro Woken) (auto simp: threadFunction_def lock_threads_def split: if_splits)
  next
    case (W_Dec r)
    with assms w show ?thesis
      by (cases r) (auto simp: threadFunction_def intro: Dec_some Dec_none)
  next
    case W_Exit
    with assms w show ?thesis by (simp add: threadFunction_def)
  qed
qed

lemma spurious_wakeup_cases [consumes 1, case_names Spurious]:
  assumes "spurious_wakeup w s = Some s'"
  obtains "w < length (workers s)" "pc (workers s ! w) = W_Wait" "s' = set_pc w W_Woken s"
  using assms by (auto simp: spurious_wakeup_def split: if_splits)

lemma owner_step_cases [consumes 1, case_names Enq_push Enq_pushing Enq_lock Enq_notify_one
    Enq_notify_none Stop_flag Stop_flags_done Clear_pop Clear_discard Clear_done69 Clear_done85
    Stop_lock Stop_notify Join Join_skip Join_done Stop_clear Init_lock Init_notify]:
  assumes "owner_step k s = Some s'"
  obtains
    (Enq_push) t where "caller s = Enqueue_Push t" "tasksMutex s = None"
      "s' = s\<lparr>tasksMutex := Some Owner, caller := Enqueue_Pushing t\<rparr>"
  | (Enq_pushing) t where "caller s = Enqueue_Pushing t"
      "s' = s\<lparr>tasks := tasks s @ [t], tasksMutex := None, enqueued := enqueued s @ [t],
               caller := Enqueue_Lock\<rparr>"
  | (Enq_lock) "caller s = Enqueue_Lock" "threadsMutex s = None"
      "s' = s\<lparr>threadsMutex := Some Owner, caller := Enqueue_Notify\<rparr>"
  | (Enq_notify_one) "caller s = Enqueue_Notify" "k < length (workers s)"
      "pc (workers s ! k) = W_Wait"
      "s' = (set_pc k W_Woken s)\<lparr>threadsMutex := None, caller := C_Idle\<rparr>"
  | (Enq_notify_none) "caller s = Enqueue_Notify"
      "\<forall>w<length (workers s). pc (workers s ! w) \<noteq> W_Wait"
      "s' = s\<lparr>threadsMutex := None, caller := C_Idle\<rparr>"
  | (Stop_flag) i tc where "caller s = Stop_Flags i tc" "i < tc"
      "unat i < length (threadsStopFlags s)"
      "s' = (set_flag (threadsStopFlags s ! unat i) s)\<lparr>caller := Stop_Flags (i + 1) tc\<rparr>"
  | (Stop_flags_done) i tc where "caller s = Stop_Flags i tc" "\<not> i < tc"
      "s' = s\<lparr>caller := ClearTasks_Pop Line69\<rparr>"
  | (Clear_pop) site where "caller s = ClearTasks_Pop site" "tasksMutex s = None"
      "s' = s\<lparr>tasksMutex := Some Owner, caller := ClearTasks_Popping site\<rparr>"
  | (Clear_discard) site t q where "caller s = ClearTasks_Popping site" "tasks s = t # q"
      "s' = (discard t (s\<lparr>tasks := q\<rparr>))\<lparr>tasksMutex := None, caller := ClearTasks_Pop site\<rparr>"
  | (Clear_done69) "caller s = ClearTasks_Popping Line69" "tasks s = []"
      "s' = s\<lparr>tasksMutex := None, caller := Stop_Lock\<rparr>"
  | (Clear_done85) "caller s = ClearTasks_Popping Line85" "tasks s = []"
      "s' = s\<lparr>tasksMutex := None, caller := Stop_Clear\<rparr>"
  | (Stop_lock) "caller s = Stop_Lock" "threadsMutex s = None"
      "s' = s\<lparr>threadsMutex := Some Owner, caller := Stop_Notify\<rparr>"
  | (Stop_notify) "caller s = Stop_Notify"
      "s' = (notify_all s)\<lparr>threadsMutex := None, caller := Stop_Join 0\<rparr>"
  | (Join) i where "caller s = Stop_Join i" "i < ThreadsCount s" "unat i < length (threads s)"
      "joinable (workers s ! (threads s ! unat i))"
      "pc (workers s ! (threads s ! unat i)) = W_Exit"
      "s' = (set_joinable (threads s ! unat i) False s)\<lparr>caller := Stop_Join (i + 1)\<rparr>"
  | (Join_skip) i where "caller s = Stop_Join i" "i < ThreadsCount s"
      "unat i < length (threads s)" "\<not> joinable (workers s ! (threads s ! unat i))"
      "s' = s\<lparr>caller := Stop_Join (i + 1)\<rparr>"
  | (Join_done) i where "caller s = Stop_Join i" "\<not> i < ThreadsCount s"
      "s' = s\<lparr>caller := ClearTasks_Pop Line85\<rparr>"
  | (Stop_clear) "caller s = Stop_Clear"
      "s' = s\<lparr>threads := [], threadsStopFlags := [], caller := C_Idle\<rparr>"
  | (Init_lock) n where "caller s = Init_Lock n" "threadsMutex s = None"
      "s' = s\<lparr>threadsMutex := Some Owner, caller := Init_Notify n\<rparr>"
  | (Init_notify) n where "caller s = Init_Notify n" "s' = Init_finish n s"
proof (cases "caller s")
  case C_Idle
  with assms show ?thesis by (simp add: owner_step_def)
next
  case (Enqueue_Push t)
  with assms show ?thesis
    by (intro Enq_push[of t]) (auto simp: owner_step_def lock_tasks_def split: if_splits)
next
  case (Enqueue_Pushing t)
  with assms show ?thesis
    by (intro Enq_pushing[of t]) (auto simp: owner_step_def PushTask_def)
next
  case Enqueue_Lock
  with assms show ?thesis
    by (intro Enq_lock) (auto simp: owner_step_def lock_threads_def split: if_splits)
next
  case Enqueue_Notify
  show ?thesis
  proof (cases "k < length (workers s) \<and> pc (workers s ! k) = W_Wait")
    case True
    with assms Enqueue_Notify show ?thesis
      by (intro Enq_notify_one) (auto simp: owner_step_def notify_one_def)
  next
    case False
    with assms Enqueue_Notify show ?thesis
      by (intro Enq_notify_none)
         (auto simp: owner_step_def notify_one_def list_ex_length split: if_splits)
  qed
next
  case (Stop_Flags i tc)
  with assms show ?thesis
    by (cases "i < tc")
       (auto simp: owner_step_def split: if_splits intro: Stop_flag Stop_flags_done)
next
  case (ClearTasks_Pop site)
  with assms show ?thesis
    by (intro Clear_pop[of site]) (auto simp: owner_step_def lock_tasks_def split: if_splits)
next
  case (ClearTasks_Popping site)
  show ?thesis
  proof (cases "tasks s")
    case Nil
    with assms ClearTasks_Popping show ?thesis
      by (cases site) (auto simp: owner_step_def PopTask_def intro: Clear_done69 Clear_done85)
  next
    case (Cons t q)
    with assms ClearTasks_Popping show ?thesis
      by (intro Clear_discard[of site t q]) (auto simp: owner_step_def PopTask_def)
  qed
next
  case Stop_Lock
  with assms show ?thesis
    by (intro Stop_lock) (auto simp: owner_step_def lock_threads_def split: if_splits)
next
  case Stop_Notify
  with assms show ?thesis by (intro Stop_notify) (auto simp: owner_step_def)
next
  case (Stop_Join i)
  show ?thesis
  proof (cases "i < ThreadsCount s")
    case True
    with assms Stop_Join have len: "unat i < length (threads s)"
      by (auto simp: owner_step_def split: if_splits)
    show ?thesis
    proof (cases "joinable (workers s ! (threads s ! unat i))")
      case j: True
      with assms Stop_Join True len show ?thesis
        by (intro Join[of i]) (auto simp: owner_step_def split: if_splits)
    next
      case False
      with assms Stop_Join True len show ?thesis
        by (intro Join_skip[of i]) (auto simp: owner_step_def split: if_splits)
    qed
  next
    case False
    with assms Stop_Join show ?thesis
      by (intro Join_done[of i]) (auto simp: owner_step_def)
  qed
next
  case Stop_Clear
  with assms show ?thesis by (intro Stop_clear) (auto simp: owner_step_def)
next
  case (Init_Lock n)
  with assms show ?thesis
    by (intro Init_lock[of n]) (auto simp: owner_step_def lock_threads_def split: if_splits)
next
  case (Init_Notify n)
  with assms show ?thesis by (intro Init_notify[of n]) (auto simp: owner_step_def)
qed

lemma enter_cases [consumes 1, case_names Enqueue Stop_noop Stop_true Stop_false Resize_noop
    Resize_grow Resize_shrink]:
  assumes "enter c s = Some s'"
  obtains
    (Enqueue) t f where "c = Enqueue t f" "caller s = C_Idle" "futures s t = None"
      "s' = s\<lparr>callables := (callables s)(t \<mapsto> f), futures := (futures s)(t \<mapsto> Pending),
               caller := Enqueue_Push t\<rparr>"
  | (Stop_noop) b where "c = Stop b" "caller s = C_Idle"
      "if b then doneFlag s \<or> stopFlag s else stopFlag s" "s' = s"
  | (Stop_true) "c = Stop True" "caller s = C_Idle" "\<not> doneFlag s" "\<not> stopFlag s"
      "s' = s\<lparr>doneFlag := True, caller := Stop_Lock\<rparr>"
  | (Stop_false) "c = Stop False" "caller s = C_Idle" "\<not> stopFlag s"
      "s' = s\<lparr>stopFlag := True, caller := Stop_Flags 0 (ThreadsCount s)\<rparr>"
  | (Resize_noop) n where "c = Resize n" "caller s = C_Idle"
      "stopFlag s \<or> doneFlag s \<or> ThreadsCount s = n" "s' = s"
  | (Resize_grow) n where "c = Resize n" "caller s = C_Idle" "\<not> stopFlag s" "\<not> doneFlag s"
      "ThreadsCount s < n" "s' = fold InitThead [unat (ThreadsCount s)..<unat n] s"
  | (Resize_shrink) n s0 where "c = Resize n" "caller s = C_Idle" "\<not> stopFlag s"
      "\<not> doneFlag s" "n < ThreadsCount s"
      "shrink_loop (ThreadsCount s - 1) n s = Some (Inr s0)" "s' = s0\<lparr>caller := Init_Lock n\<rparr>"
proof -
  from assms have idle: "caller s = C_Idle"
    by (simp add: enter_def split: if_splits)
  show thesis
  proof (cases c)
    case (Enqueue t f)
    with assms idle show ?thesis
      by (intro that(1)[of t f]) (auto simp: enter_def split: if_splits)
  next
    case (Stop b)
    show ?thesis
    proof (cases b)
      case True
      with assms idle Stop show ?thesis
        by (cases "doneFlag s \<or> stopFlag s")
           (auto simp: enter_def intro: Stop_noop[of True] Stop_true)
    next
      case False
      with assms idle Stop show ?thesis
        by (cases "stopFlag s") (auto simp: enter_def intro: Stop_noop[of False] Stop_false)
    qed
  next
    case (Resize n)
    show ?thesis
    proof (cases "stopFlag s \<or> doneFlag s \<or> ThreadsCount s = n")
      case True
      with assms idle Resize show ?thesis
        by (intro Resize_noop[of n]) (auto simp: enter_def Init_call_def Let_def split: if_splits)
    next
      case nontrivial: False
      show ?thesis
      proof (cases "ThreadsCount s < n")
        case True
        with assms idle Resize nontrivial show ?thesis
          by (intro Resize_grow[of n]) (auto simp: enter_def Init_call_def Let_def split: if_splits)
      next
        case False
        with nontrivial have lt: "n < ThreadsCount s" by auto
        from assms idle Resize nontrivial False
        obtain s0 where "shrink_loop (ThreadsCount s - 1) n s = Some (Inr s0)"
          "s' = s0\<lparr>caller := Init_Lock n\<rparr>"
          by (auto simp: enter_def Init_call_def Let_def split: option.splits sum.splits)
        with idle Resize nontrivial lt show ?thesis
          by (intro Resize_shrink[of n s0]) auto
      qed
    qed
  qed
qed

section \<open>The task queue is first in, first out\<close>

lemma queue_ops_pushes:
  "queue_ops (map Push ts @ ops) s = queue_ops ops (s\<lparr>tasks := tasks s @ ts\<rparr>)"
  by (induction ts arbitrary: s) (simp_all add: PushTask_def)

lemma queue_ops_pops:
  "queue_ops (replicate (length (tasks s)) Pop) s = (map Some (tasks s), s\<lparr>tasks := []\<rparr>)"
proof (induction "tasks s" arbitrary: s)
  case Nil
  then show ?case by simp
next
  case (Cons t q)
  from Cons(2) have ts: "tasks s = t # q" by simp
  have "q = tasks (s\<lparr>tasks := q\<rparr>)" by simp
  from Cons(1)[OF this] show ?case
    by (simp add: ts PopTask_def)
qed

text \<open>
  Claim C7. \<^verbatim>\<open>PushTask\<close> appends at the tail; \<^verbatim>\<open>PopTask\<close> removes and returns the head of
  a non-empty queue and reports an empty one by \<open>None\<close>, leaving the pool as it is. For
  every sequence of pushes and pops, the tasks the pops returned followed by the tasks
  still queued are the tasks queued at the start followed by the pushed tasks, in the
  order of the pushes. In particular \<open>N\<close> tasks pushed to an empty queue are returned
  by the next \<open>N\<close> pops in the order they were pushed, and one more pop reports empty.
\<close>

theorem queue_fifo:
  "tasks (PushTask t s) = tasks s @ [t]
   \<and> PopTask s = (if tasks s = [] then (None, s)
                  else (Some (hd (tasks s)), s\<lparr>tasks := tl (tasks s)\<rparr>))
   \<and> popped (fst (queue_ops ops s)) @ tasks (snd (queue_ops ops s)) = tasks s @ pushed ops
   \<and> fst (queue_ops (map Push ts @ replicate (length ts) Pop) (s\<lparr>tasks := []\<rparr>)) = map Some ts
   \<and> fst (PopTask (snd (queue_ops (map Push ts @ replicate (length ts) Pop)
                          (s\<lparr>tasks := []\<rparr>)))) = None"
proof -
  have a: "popped (fst (queue_ops ops s)) @ tasks (snd (queue_ops ops s)) = tasks s @ pushed ops"
    by (induction ops s rule: queue_ops.induct)
       (auto simp: PushTask_def PopTask_def split: list.splits prod.splits)
  have b: "queue_ops (map Push ts @ replicate (length ts) Pop) (s\<lparr>tasks := []\<rparr>)
           = (map Some ts, s\<lparr>tasks := []\<rparr>)"
    using queue_ops_pops[of "s\<lparr>tasks := ts\<rparr>"] by (simp add: queue_ops_pushes)
  show ?thesis
    using a by (simp add: b) (simp add: PushTask_def PopTask_def split: list.splits)
qed

section \<open>Evaluating schedules\<close>

lemmas step_defs = step_def enter_def owner_step_def threadFunction_def spurious_wakeup_def
  lock_tasks_def lock_threads_def set_pc_def notify_all_def notify_one_def invoke_def discard_def
  PushTask_def PopTask_def set_flag_def set_joinable_def InitThead_def Init_call_def Init_finish_def
  ThreadsCount_def init_pool_def

lemma unat_max_u32: "unat (- 1 :: u32) = 4294967295"
  by (simp add: unsigned_minus_1_eq_mask mask_eq_exp_minus_1)

lemma run_append: "run (as @ bs) s = Option.bind (run as s) (run bs)"
  by (induction as arbitrary: s) (auto split: option.splits)

lemma reachable_run: "reachable s \<Longrightarrow> run as s = Some s' \<Longrightarrow> reachable s'"
  by (induction as arbitrary: s) (auto split: option.splits intro: reachable_step)

section \<open>Shrinking to no thread at all\<close>

text \<open>
  \<^verbatim>\<open>Init(0)\<close> on a pool that holds one worker. The loop of line 143 starts at \<open>i = 0\<close>,
  where \<^verbatim>\<open>i >= 0\<close> holds; it flags and detaches worker 0, decrements \<open>i\<close> to \<open>2^32 - 1\<close>,
  where \<^verbatim>\<open>i >= 0\<close> holds again, and indexes both vectors out of range. The resizes of
  lines 155 and 156 are not reached. \<^verbatim>\<open>Init\<close> is private and only the constructors call
  it, on the empty pool: no member function makes this call.
\<close>

lemma Init_zero_out_of_range:
  "Option.bind (run [Call (Resize 1)] init_pool) (Init 0) = Some (Inl OutOfRange)"
  by (simp add: step_defs Init_def shrink_loop.simps unat_max_u32)

section \<open>Invariants of the reachable states\<close>

subsection \<open>The two vectors and the thread objects\<close>

text \<open>Which slots hold a joinable thread object, by where the owner is: the join loop has
  joined the slots below \<open>i\<close>, the shrink loop has detached the slots from
  \<open>threadsCount\<close> on.\<close>

fun joinable_slot :: "cpc \<Rightarrow> nat \<Rightarrow> bool" where
  "joinable_slot (Stop_Join i) j = (unat i \<le> j)"
| "joinable_slot (ClearTasks_Pop Line85) j = False"
| "joinable_slot (ClearTasks_Popping Line85) j = False"
| "joinable_slot Stop_Clear j = False"
| "joinable_slot (Init_Lock n) j = (j < unat n)"
| "joinable_slot (Init_Notify n) j = (j < unat n)"
| "joinable_slot _ j = True"

fun counters_ok :: "cpc \<Rightarrow> nat \<Rightarrow> bool" where
  "counters_ok (Stop_Flags i tc) len = (unat tc = len \<and> unat i \<le> len)"
| "counters_ok (Stop_Join i) len = (unat i \<le> len)"
| "counters_ok (Init_Lock n) len = (0 < unat n \<and> unat n < len)"
| "counters_ok (Init_Notify n) len = (0 < unat n \<and> unat n < len)"
| "counters_ok _ len = True"

definition wf_inv :: "pool \<Rightarrow> bool" where
  "wf_inv s \<longleftrightarrow>
     threadsStopFlags s = threads s \<and> distinct (threads s)
   \<and> (\<forall>w\<in>set (threads s). w < length (workers s))
   \<and> length (threads s) < 2 ^ 32
   \<and> (\<forall>j<length (threads s). joinable (workers s ! (threads s ! j)) = joinable_slot (caller s) j)
   \<and> counters_ok (caller s) (length (threads s))"

lemma wf_inv_work:
  assumes "wf_inv s" "threadFunction w s = Some s'" shows "wf_inv s'"
  using assms(2)
  by (cases rule: threadFunction_cases) (use assms(1) in \<open>auto simp: wf_inv_def\<close>)

lemma wf_inv_spurious:
  assumes "wf_inv s" "spurious_wakeup w s = Some s'" shows "wf_inv s'"
  using assms(2)
  by (cases rule: spurious_wakeup_cases) (use assms(1) in \<open>auto simp: wf_inv_def\<close>)

lemma unat_Suc_slot:
  "unat (i::u32) < length (threads s) \<Longrightarrow> length (threads s) < 2 ^ 32 \<Longrightarrow> unat (i + 1) = Suc (unat i)"
  by (simp add: unat_word_ariths)

lemma joinable_slot_Popping [simp]:
  "joinable_slot (ClearTasks_Popping site) j = joinable_slot (ClearTasks_Pop site) j"
  by (cases site) simp_all

lemma wf_inv_own:
  assumes "wf_inv s" "owner_step k s = Some s'" shows "wf_inv s'"
  using assms(2)
proof (cases rule: owner_step_cases)
  case (Stop_flag i tc)
  then show ?thesis using assms(1)
    by (auto simp: wf_inv_def unat_Suc_slot word_less_nat_alt)
next
  case (Join i)
  then show ?thesis using assms(1)
    by (auto simp: wf_inv_def unat_Suc_slot nth_eq_iff_index_eq unat_ThreadsCount word_less_nat_alt)
next
  case (Join_skip i)
  then show ?thesis using assms(1)
    by (auto simp: wf_inv_def)
next
  case (Join_done i)
  then show ?thesis using assms(1)
    by (auto simp: wf_inv_def unat_ThreadsCount word_less_nat_alt)
next
  case (Init_notify n)
  then show ?thesis using assms(1)
    by (auto simp: wf_inv_def dest: in_set_takeD)
qed (use assms(1) in \<open>auto simp: wf_inv_def\<close>)

lemma wf_inv_enter:
  assumes "wf_inv s" "enter c s = Some s'" shows "wf_inv s'"
  using assms(2)
proof (cases rule: enter_cases)
  case (Resize_grow n)
  from assms(1) have len: "unat (ThreadsCount s) = length (threads s)"
    by (simp add: wf_inv_def unat_ThreadsCount)
  from Resize_grow(5) have lt: "length (threads s) < unat n"
    using len by (simp add: word_less_nat_alt)
  have n: "unat n < 2 ^ 32" using unsigned_less[of n] by simp
  show ?thesis using assms(1) Resize_grow(2,6) lt n
    by (auto simp: wf_inv_def fold_InitThead len nth_append fresh_worker_def)
next
  case (Resize_shrink n s0)
  from assms(1) have len: "length (threads s) < 2 ^ 32" by (simp add: wf_inv_def)
  from shrink_loop_Inr[OF Resize_shrink(6,5) len]
  have n: "0 < n" and s0: "s0 = fold mark_at (rev [unat n..<length (threads s)]) s" by auto
  from Resize_shrink(5) have lt: "unat n < length (threads s)"
    using unat_ThreadsCount[OF len] by (simp add: word_less_nat_alt)
  from n have n': "0 < unat n" by (simp add: word_less_nat_alt)
  show ?thesis using assms(1) Resize_shrink(2,7) lt n'
    by (auto simp: wf_inv_def s0 nth_eq_iff_index_eq)
qed (use assms(1) in \<open>auto simp: wf_inv_def unat_ThreadsCount\<close>)
lemma wf_inv_step: "wf_inv s \<Longrightarrow> step a s = Some s' \<Longrightarrow> wf_inv s'"
  by (cases a) (auto simp: step_def intro: wf_inv_enter wf_inv_own wf_inv_work wf_inv_spurious)

lemma wf_inv_reachable: "reachable s \<Longrightarrow> wf_inv s"
proof (induction rule: reachable.induct)
  case reachable_init
  show ?case by (simp add: wf_inv_def init_pool_def)
next
  case (reachable_step s a s')
  then show ?case using wf_inv_step by blast
qed

subsection \<open>Who holds which mutex\<close>

fun holds_threads_w :: "wpc \<Rightarrow> bool" where
  "holds_threads_w W_Inc = True"
| "holds_threads_w W_PredPop = True"
| "holds_threads_w W_PredPopping = True"
| "holds_threads_w (W_PredTest _) = True"
| "holds_threads_w (W_Dec _) = True"
| "holds_threads_w _ = False"

fun holds_tasks_w :: "wpc \<Rightarrow> bool" where
  "holds_tasks_w W_Popping = True"
| "holds_tasks_w W_PredPopping = True"
| "holds_tasks_w _ = False"

fun holds_threads_c :: "cpc \<Rightarrow> bool" where
  "holds_threads_c Enqueue_Notify = True"
| "holds_threads_c Stop_Notify = True"
| "holds_threads_c (Init_Notify _) = True"
| "holds_threads_c _ = False"

fun holds_tasks_c :: "cpc \<Rightarrow> bool" where
  "holds_tasks_c (Enqueue_Pushing _) = True"
| "holds_tasks_c (ClearTasks_Popping _) = True"
| "holds_tasks_c _ = False"

definition lock_inv :: "pool \<Rightarrow> bool" where
  "lock_inv s \<longleftrightarrow>
     (\<forall>w<length (workers s). holds_threads_w (pc (workers s ! w)) = (threadsMutex s = Some (Thread w)))
   \<and> (\<forall>w. threadsMutex s = Some (Thread w) \<longrightarrow> w < length (workers s))
   \<and> holds_threads_c (caller s) = (threadsMutex s = Some Owner)
   \<and> (\<forall>w<length (workers s). holds_tasks_w (pc (workers s ! w)) = (tasksMutex s = Some (Thread w)))
   \<and> (\<forall>w. tasksMutex s = Some (Thread w) \<longrightarrow> w < length (workers s))
   \<and> holds_tasks_c (caller s) = (tasksMutex s = Some Owner)"

lemma lock_inv_work:
  assumes "lock_inv s" "threadFunction w s = Some s'" shows "lock_inv s'"
  using assms(2)
  by (cases rule: threadFunction_cases) (use assms(1) in \<open>auto simp: lock_inv_def\<close>)

lemma lock_inv_spurious:
  assumes "lock_inv s" "spurious_wakeup w s = Some s'" shows "lock_inv s'"
  using assms(2)
  by (cases rule: spurious_wakeup_cases) (use assms(1) in \<open>auto simp: lock_inv_def\<close>)

lemma lock_inv_own:
  assumes "lock_inv s" "owner_step k s = Some s'" shows "lock_inv s'"
  using assms(2)
  by (cases rule: owner_step_cases) (use assms(1) in \<open>auto simp: lock_inv_def\<close>)

lemma lock_inv_enter:
  assumes "wf_inv s" "lock_inv s" "enter c s = Some s'" shows "lock_inv s'"
  using assms(3)
proof (cases rule: enter_cases)
  case (Resize_grow n)
  then show ?thesis using assms(2)
    by (auto simp: lock_inv_def fold_InitThead nth_append fresh_worker_def)
next
  case (Resize_shrink n s0)
  from assms(1) have len: "length (threads s) < 2 ^ 32" by (simp add: wf_inv_def)
  from shrink_loop_Inr[OF Resize_shrink(6,5) len]
  have s0: "s0 = fold mark_at (rev [unat n..<length (threads s)]) s" by auto
  show ?thesis using assms(2) Resize_shrink(2,7)
    by (auto simp: lock_inv_def s0)
qed (use assms(2) in \<open>auto simp: lock_inv_def\<close>)

lemma lock_inv_step: "wf_inv s \<Longrightarrow> lock_inv s \<Longrightarrow> step a s = Some s' \<Longrightarrow> lock_inv s'"
  by (cases a) (auto simp: step_def intro: lock_inv_enter lock_inv_own lock_inv_work lock_inv_spurious)

lemma lock_inv_reachable: "reachable s \<Longrightarrow> lock_inv s"
proof (induction rule: reachable.induct)
  case reachable_init
  show ?case by (simp add: lock_inv_def init_pool_def)
next
  case (reachable_step s a s')
  then show ?case using wf_inv_reachable lock_inv_step by blast
qed

subsection \<open>The idle counter\<close>

text \<open>A worker is counted from its increment of line 185 to its decrement of line 191.\<close>

fun is_idle :: "wpc \<Rightarrow> bool" where
  "is_idle W_PredPop = True"
| "is_idle W_PredPopping = True"
| "is_idle (W_PredTest _) = True"
| "is_idle W_Wait = True"
| "is_idle W_Woken = True"
| "is_idle (W_Dec _) = True"
| "is_idle _ = False"

definition count_pc :: "(wpc \<Rightarrow> bool) \<Rightarrow> worker list \<Rightarrow> nat" where
  "count_pc Q ws = length (filter (\<lambda>x. Q (pc x)) ws)"

lemma count_pc_update:
  assumes "i < length ws"
  shows "int (count_pc Q (ws[i := y]))
     = int (count_pc Q ws) - (if Q (pc (ws ! i)) then 1 else 0) + (if Q (pc y) then 1 else 0)"
proof -
  have "count_pc Q (ws[i := y]) = count_pc Q (take i ws @ y # drop (Suc i) ws)"
    using assms by (simp add: upd_conv_take_nth_drop)
  moreover have "count_pc Q ws = count_pc Q (take i ws @ ws ! i # drop (Suc i) ws)"
    using assms by (simp add: id_take_nth_drop[symmetric])
  ultimately show ?thesis by (simp add: count_pc_def)
qed

lemma count_pc_same:
  assumes "pc y = pc (ws ! i)"
  shows "count_pc Q (ws[i := y]) = count_pc Q ws"
proof (cases "i < length ws")
  case True
  with count_pc_update[OF True, of Q y] assms show ?thesis by simp
next
  case False
  then have "ws[i := y] = ws" by (intro list_update_beyond) simp
  then show ?thesis by simp
qed

lemma count_pc_set_pc:
  "w < length (workers s) \<Longrightarrow>
   int (count_pc Q (workers (set_pc w p s)))
     = int (count_pc Q (workers s)) - (if Q (pc (workers s ! w)) then 1 else 0) + (if Q p then 1 else 0)"
  by (simp add: set_pc_def count_pc_update)

lemma count_pc_frame [simp]:
  "count_pc Q (workers (set_flag w s)) = count_pc Q (workers s)"
  "count_pc Q (workers (set_joinable w b s)) = count_pc Q (workers s)"
  by (simp_all add: set_flag_def set_joinable_def count_pc_same)

lemma count_pc_fold_mark_at [simp]:
  "count_pc Q (workers (fold mark_at js s)) = count_pc Q (workers s)"
  by (induction js arbitrary: s) (simp_all add: mark_at_def)

lemma count_pc_notify_all [simp]:
  "Q W_Woken = Q W_Wait \<Longrightarrow> count_pc Q (workers (notify_all s)) = count_pc Q (workers s)"
  unfolding notify_all_def count_pc_def
  by (simp add: filter_map o_def) (rule arg_cong[where f = length], rule filter_cong, auto)

lemma count_pc_append [simp]: "count_pc Q (ws @ ws') = count_pc Q ws + count_pc Q ws'"
  by (simp add: count_pc_def)

lemma count_pc_fresh [simp]: "count_pc Q (map fresh_worker is) = (if Q W_Pop then length is else 0)"
  by (simp add: count_pc_def filter_map o_def fresh_worker_def)

definition idle_inv :: "pool \<Rightarrow> bool" where
  "idle_inv s \<longleftrightarrow> idleThreadsCount s = int (count_pc is_idle (workers s))"

lemma idle_inv_work:
  assumes "idle_inv s" "threadFunction w s = Some s'" shows "idle_inv s'"
  using assms(2)
  by (cases rule: threadFunction_cases) (use assms(1) in \<open>auto simp: idle_inv_def count_pc_set_pc\<close>)

lemma idle_inv_spurious:
  assumes "idle_inv s" "spurious_wakeup w s = Some s'" shows "idle_inv s'"
  using assms(2)
  by (cases rule: spurious_wakeup_cases) (use assms(1) in \<open>auto simp: idle_inv_def count_pc_set_pc\<close>)

lemma idle_inv_own:
  assumes "idle_inv s" "owner_step k s = Some s'" shows "idle_inv s'"
  using assms(2)
  by (cases rule: owner_step_cases) (use assms(1) in \<open>auto simp: idle_inv_def count_pc_set_pc\<close>)

lemma idle_inv_enter:
  assumes "wf_inv s" "idle_inv s" "enter c s = Some s'" shows "idle_inv s'"
  using assms(3)
proof (cases rule: enter_cases)
  case (Resize_grow n)
  then show ?thesis using assms(2)
    by (auto simp: idle_inv_def fold_InitThead)
next
  case (Resize_shrink n s0)
  from assms(1) have len: "length (threads s) < 2 ^ 32" by (simp add: wf_inv_def)
  from shrink_loop_Inr[OF Resize_shrink(6,5) len]
  have s0: "s0 = fold mark_at (rev [unat n..<length (threads s)]) s" by auto
  show ?thesis using assms(2) Resize_shrink(2,7)
    by (auto simp: idle_inv_def s0)
qed (use assms(2) in \<open>auto simp: idle_inv_def\<close>)

lemma idle_inv_step: "wf_inv s \<Longrightarrow> idle_inv s \<Longrightarrow> step a s = Some s' \<Longrightarrow> idle_inv s'"
  by (cases a) (auto simp: step_def intro: idle_inv_enter idle_inv_own idle_inv_work idle_inv_spurious)

lemma idle_inv_reachable: "reachable s \<Longrightarrow> idle_inv s"
proof (induction rule: reachable.induct)
  case reachable_init
  show ?case by (simp add: idle_inv_def init_pool_def count_pc_def)
next
  case (reachable_step s a s')
  then show ?case using wf_inv_reachable idle_inv_step by blast
qed

text \<open>The workers a shrink has detached and that have not returned yet: the pool has no
  handle on them any more.\<close>

definition detached :: "pool \<Rightarrow> tid list" where
  "detached s =
     filter (\<lambda>w. w \<notin> set (threads s) \<and> pc (workers s ! w) \<noteq> W_Exit) [0..<length (workers s)]"

lemma idle_le_live:
  "count_pc is_idle (workers s) \<le> length (threads s) + length (detached s)"
proof -
  have "count_pc is_idle (workers s) = card {w. w < length (workers s) \<and> is_idle (pc (workers s ! w))}"
    by (simp add: count_pc_def length_filter_conv_card)
  also have "\<dots> \<le> card (set (threads s) \<union> set (detached s))"
  proof (rule card_mono)
    show "{w. w < length (workers s) \<and> is_idle (pc (workers s ! w))} \<subseteq> set (threads s) \<union> set (detached s)"
      by (auto simp: detached_def)
  qed simp
  also have "\<dots> \<le> card (set (threads s)) + card (set (detached s))"
    by (rule card_Un_le)
  also have "\<dots> \<le> length (threads s) + length (detached s)"
    by (simp add: add_mono card_length)
  finally show ?thesis .
qed

text \<open>In every reachable state the idle counter is not negative and is at most the number
  of threads in \<^verbatim>\<open>_threads\<close> plus the number of detached workers that are still running.\<close>

lemma idle_count_le_live:
  assumes "reachable s"
  shows "0 \<le> IdleThreadsCount s
       \<and> IdleThreadsCount s \<le> int (unat (ThreadsCount s)) + int (length (detached s))"
proof -
  from wf_inv_reachable[OF assms] have "unat (ThreadsCount s) = length (threads s)"
    by (simp add: wf_inv_def unat_ThreadsCount)
  moreover from idle_inv_reachable[OF assms]
  have "IdleThreadsCount s = int (count_pc is_idle (workers s))"
    by (simp add: idle_inv_def IdleThreadsCount_def)
  ultimately show ?thesis using idle_le_live[of s] by auto
qed

subsection \<open>Where every enqueued task is\<close>

text \<open>The task a worker has taken from the queue and not yet invoked.\<close>

fun held :: "wpc \<Rightarrow> task multiset" where
  "held (W_Exec t) = {#t#}"
| "held (W_PredTest (Some t)) = {#t#}"
| "held (W_Dec (Some t)) = {#t#}"
| "held _ = {#}"

definition inflight :: "worker list \<Rightarrow> task multiset" where
  "inflight ws = sum_list (map (\<lambda>x. held (pc x)) ws)"

lemma inflight_update:
  assumes "i < length ws"
  shows "inflight (ws[i := y]) + held (pc (ws ! i)) = inflight ws + held (pc y)"
proof -
  have "inflight (ws[i := y]) = inflight (take i ws @ y # drop (Suc i) ws)"
    using assms by (simp add: upd_conv_take_nth_drop)
  moreover have "inflight ws = inflight (take i ws @ ws ! i # drop (Suc i) ws)"
    using assms by (simp add: id_take_nth_drop[symmetric])
  ultimately show ?thesis by (simp add: inflight_def)
qed

lemma inflight_same:
  assumes "held (pc y) = held (pc (ws ! i))"
  shows "inflight (ws[i := y]) = inflight ws"
proof (cases "i < length ws")
  case True
  with inflight_update[OF True, of y] assms show ?thesis by simp
next
  case False
  then have "ws[i := y] = ws" by (intro list_update_beyond) simp
  then show ?thesis by simp
qed

lemma inflight_keep:
  "w < length (workers s) \<Longrightarrow> held p = held (pc (workers s ! w)) \<Longrightarrow>
   inflight (workers (set_pc w p s)) = inflight (workers s)"
  by (simp add: set_pc_def inflight_same)

lemma inflight_gain:
  "w < length (workers s) \<Longrightarrow> held (pc (workers s ! w)) = {#} \<Longrightarrow>
   inflight (workers (set_pc w p s)) = inflight (workers s) + held p"
  using inflight_update[of w "workers s" "(workers s ! w)\<lparr>pc := p\<rparr>"]
  by (simp add: set_pc_def)

lemma inflight_lose:
  "w < length (workers s) \<Longrightarrow> held p = {#} \<Longrightarrow>
   inflight (workers s) = inflight (workers (set_pc w p s)) + held (pc (workers s ! w))"
  using inflight_update[of w "workers s" "(workers s ! w)\<lparr>pc := p\<rparr>"]
  by (simp add: set_pc_def)

lemma inflight_frame [simp]:
  "inflight (workers (set_flag w s)) = inflight (workers s)"
  "inflight (workers (set_joinable w b s)) = inflight (workers s)"
  by (simp_all add: set_flag_def set_joinable_def inflight_same)

lemma inflight_fold_mark_at [simp]:
  "inflight (workers (fold mark_at js s)) = inflight (workers s)"
  by (induction js arbitrary: s) (simp_all add: mark_at_def)

lemma inflight_notify_all [simp]:
  "inflight (workers (notify_all s)) = inflight (workers s)"
  unfolding notify_all_def inflight_def
  by (simp add: o_def) (rule arg_cong[where f = sum_list], rule map_cong, auto)

lemma inflight_append [simp]: "inflight (ws @ ws') = inflight ws + inflight ws'"
  by (simp add: inflight_def)

lemma inflight_fresh [simp]: "inflight (map fresh_worker is) = {#}"
  by (induction "is") (simp_all add: inflight_def fresh_worker_def)

lemma held_PredTest_Dec [simp]: "held (W_Dec r) = held (W_PredTest r)"
  by (cases r) simp_all

fun pushing :: "cpc \<Rightarrow> task \<Rightarrow> bool" where
  "pushing (Enqueue_Push t') t = (t' = t)"
| "pushing (Enqueue_Pushing t') t = (t' = t)"
| "pushing _ t = False"

definition acct_inv :: "pool \<Rightarrow> bool" where
  "acct_inv s \<longleftrightarrow>
     distinct (enqueued s)
   \<and> mset (enqueued s)
       = mset (tasks s) + inflight (workers s) + mset (map fst (executed s)) + mset (discarded s)
   \<and> (\<forall>t\<in>set (enqueued s). futures s t \<noteq> None)
   \<and> (\<forall>t. pushing (caller s) t \<longrightarrow> t \<notin> set (enqueued s) \<and> futures s t \<noteq> None)"

lemma acct_inv_work:
  assumes "acct_inv s" "threadFunction w s = Some s'" shows "acct_inv s'"
  using assms(2)
proof (cases rule: threadFunction_cases)
  case (Exec t)
  from inflight_lose[OF Exec(1), of W_Check] Exec(2)
  have "inflight (workers s) = add_mset t (inflight (workers (set_pc w W_Check s)))" by simp
  moreover have "workers (set_pc w W_Check (invoke t (index (workers s ! w)) s)) = workers (set_pc w W_Check s)"
    by (simp add: set_pc_def)
  ultimately show ?thesis using assms(1) Exec
    by (auto simp: acct_inv_def invoke_def split: option.splits shared_state.splits)
qed (use assms(1) in \<open>auto simp: acct_inv_def inflight_keep inflight_gain\<close>)

lemma acct_inv_spurious:
  assumes "acct_inv s" "spurious_wakeup w s = Some s'" shows "acct_inv s'"
  using assms(2)
  by (cases rule: spurious_wakeup_cases) (use assms(1) in \<open>auto simp: acct_inv_def inflight_keep\<close>)

lemma acct_inv_own:
  assumes "acct_inv s" "owner_step k s = Some s'" shows "acct_inv s'"
  using assms(2)
  by (cases rule: owner_step_cases)
     (use assms(1) in \<open>auto simp: acct_inv_def inflight_keep discard_def split: option.splits shared_state.splits\<close>)

lemma acct_inv_enter:
  assumes "wf_inv s" "acct_inv s" "enter c s = Some s'" shows "acct_inv s'"
  using assms(3)
proof (cases rule: enter_cases)
  case (Resize_grow n)
  then show ?thesis using assms(2)
    by (auto simp: acct_inv_def fold_InitThead)
next
  case (Resize_shrink n s0)
  from assms(1) have len: "length (threads s) < 2 ^ 32" by (simp add: wf_inv_def)
  from shrink_loop_Inr[OF Resize_shrink(6,5) len]
  have s0: "s0 = fold mark_at (rev [unat n..<length (threads s)]) s" by auto
  show ?thesis using assms(2) Resize_shrink(2,7)
    by (auto simp: acct_inv_def s0)
qed (use assms(2) in \<open>auto simp: acct_inv_def\<close>)

lemma acct_inv_step: "wf_inv s \<Longrightarrow> acct_inv s \<Longrightarrow> step a s = Some s' \<Longrightarrow> acct_inv s'"
  by (cases a) (auto simp: step_def intro: acct_inv_enter acct_inv_own acct_inv_work acct_inv_spurious)

lemma acct_inv_reachable: "reachable s \<Longrightarrow> acct_inv s"
proof (induction rule: reachable.induct)
  case reachable_init
  show ?case by (simp add: acct_inv_def init_pool_def inflight_def)
next
  case (reachable_step s a s')
  then show ?case using wf_inv_reachable acct_inv_step by blast
qed

lemma distinct_add_mset_notin:
  assumes "distinct E" "mset E = add_mset t M"
  shows "t \<notin># M"
proof -
  from assms(1) have "count (mset E) t \<le> 1"
    by (simp add: distinct_count_atmost_1)
  with assms(2) have "count M t = 0" by simp
  then show ?thesis by (simp add: count_eq_zero_iff)
qed

lemma acct_head_unique:
  assumes "acct_inv s" "tasks s = t # q"
  shows "t \<notin> set q" "t \<notin># inflight (workers s)" "t \<notin> fst ` set (executed s)"
    "t \<notin> set (discarded s)"
proof -
  from assms have "distinct (enqueued s)"
    and "mset (enqueued s)
      = add_mset t (mset q + inflight (workers s) + mset (map fst (executed s)) + mset (discarded s))"
    by (simp_all add: acct_inv_def)
  from distinct_add_mset_notin[OF this]
  show "t \<notin> set q" "t \<notin># inflight (workers s)" "t \<notin> fst ` set (executed s)"
    "t \<notin> set (discarded s)"
    by auto
qed

lemma acct_held_unique:
  assumes "acct_inv s" "w < length (workers s)" "held (pc (workers s ! w)) = {#t#}" "held p = {#}"
  shows "t \<notin> set (tasks s)" "t \<notin># inflight (workers (set_pc w p s))"
    "t \<notin> fst ` set (executed s)" "t \<notin> set (discarded s)" "t \<in># inflight (workers s)"
proof -
  from inflight_lose[OF assms(2,4)] assms(3)
  have I: "inflight (workers s) = add_mset t (inflight (workers (set_pc w p s)))" by simp
  with assms(1) have "distinct (enqueued s)"
    and "mset (enqueued s)
      = add_mset t (mset (tasks s) + inflight (workers (set_pc w p s))
          + mset (map fst (executed s)) + mset (discarded s))"
    by (simp_all add: acct_inv_def)
  from distinct_add_mset_notin[OF this]
  show "t \<notin> set (tasks s)" "t \<notin># inflight (workers (set_pc w p s))"
    "t \<notin> fst ` set (executed s)" "t \<notin> set (discarded s)"
    by auto
  from I show "t \<in># inflight (workers s)" by simp
qed

definition fut_inv :: "pool \<Rightarrow> bool" where
  "fut_inv s \<longleftrightarrow>
     (\<forall>t. t \<in> set (tasks s) \<or> t \<in># inflight (workers s) \<or> pushing (caller s) t
          \<longrightarrow> futures s t = Some Pending \<and> callables s t \<noteq> None)
   \<and> (\<forall>t i. (t, i) \<in> set (executed s)
          \<longrightarrow> (\<exists>f. callables s t = Some f \<and> futures s t = Some (Ready (f i))))
   \<and> (\<forall>t\<in>set (discarded s). futures s t = Some Broken)"

lemma fut_inv_work:
  assumes "acct_inv s" "fut_inv s" "threadFunction w s = Some s'" shows "fut_inv s'"
  using assms(3)
proof (cases rule: threadFunction_cases)
  case (Exec t)
  have h: "held (pc (workers s ! w)) = {#t#}" "held W_Check = {#}" using Exec(2) by simp_all
  note u = acct_held_unique[OF assms(1) Exec(1) h]
  have ws: "workers (set_pc w W_Check (invoke t (index (workers s ! w)) s)) = workers (set_pc w W_Check s)"
    by (simp add: set_pc_def)
  from u(5) assms(2) obtain f where f: "callables s t = Some f" "futures s t = Some Pending"
    by (auto simp: fut_inv_def)
  have fu: "futures s' = (futures s)(t \<mapsto> Ready (f (index (workers s ! w))))"
    using Exec(3) f by (simp add: invoke_def set_pc_def)
  have inf: "\<And>t'. t' \<in># inflight (workers (set_pc w W_Check s)) \<Longrightarrow> t' \<in># inflight (workers s)"
    using inflight_lose[OF Exec(1) h(2)] by (metis union_iff)
  have p1: "futures s' t' = Some Pending \<and> callables s' t' \<noteq> None"
    if "t' \<in> set (tasks s') \<or> t' \<in># inflight (workers s') \<or> pushing (caller s') t'" for t'
  proof -
    from that have a: "t' \<in> set (tasks s) \<or> t' \<in># inflight (workers (set_pc w W_Check s)) \<or> pushing (caller s) t'"
      using Exec(3) ws by simp
    have "t' \<noteq> t"
    proof
      assume "t' = t"
      with a u(1,2) have "pushing (caller s) t" by auto
      with assms(1) have "t \<notin> set (enqueued s)" by (auto simp: acct_inv_def)
      moreover from u(5) assms(1) have "t \<in># mset (enqueued s)" by (simp add: acct_inv_def)
      ultimately show False by simp
    qed
    moreover from a inf assms(2) have "futures s t' = Some Pending \<and> callables s t' \<noteq> None"
      by (auto simp: fut_inv_def)
    ultimately show ?thesis
      using fu Exec(3) by simp
  qed
  have p2: "\<exists>f. callables s' t' = Some f \<and> futures s' t' = Some (Ready (f i))"
    if "(t', i) \<in> set (executed s')" for t' i
  proof -
    from that consider "(t', i) \<in> set (executed s)" | "t' = t" "i = index (workers s ! w)"
      using Exec(3) by auto
    then show ?thesis
    proof cases
      case 1
      then have "t' \<noteq> t" using u(3) by force
      with 1 assms(2) fu Exec(3) show ?thesis by (auto simp: fut_inv_def)
    next
      case 2
      with f fu Exec(3) show ?thesis by simp
    qed
  qed
  have p3: "futures s' t' = Some Broken" if "t' \<in> set (discarded s')" for t'
  proof -
    from that have d: "t' \<in> set (discarded s)" using Exec(3) by simp
    then have "t' \<noteq> t" using u(4) by auto
    with d assms(2) fu show ?thesis by (auto simp: fut_inv_def)
  qed
  show ?thesis
    unfolding fut_inv_def using p1 p2 p3 by blast
qed (use assms(2) in \<open>auto simp: fut_inv_def inflight_keep inflight_gain\<close>)

lemma fut_inv_spurious:
  assumes "fut_inv s" "spurious_wakeup w s = Some s'" shows "fut_inv s'"
  using assms(2)
  by (cases rule: spurious_wakeup_cases) (use assms(1) in \<open>auto simp: fut_inv_def inflight_keep\<close>)

lemma fut_inv_own:
  assumes "acct_inv s" "fut_inv s" "owner_step k s = Some s'" shows "fut_inv s'"
  using assms(3)
proof (cases rule: owner_step_cases)
  case (Clear_discard site t q)
  note u = acct_head_unique[OF assms(1) Clear_discard(2)]
  from assms(2) Clear_discard(2) have f: "futures s t = Some Pending" by (simp add: fut_inv_def)
  have fu: "futures s' = (futures s)(t \<mapsto> Broken)"
    using Clear_discard(3) f by (simp add: discard_def)
  have p1: "futures s' t' = Some Pending \<and> callables s' t' \<noteq> None"
    if "t' \<in> set (tasks s') \<or> t' \<in># inflight (workers s') \<or> pushing (caller s') t'" for t'
  proof -
    from that have a: "t' \<in> set q \<or> t' \<in># inflight (workers s)"
      using Clear_discard(1,3) by (cases site) auto
    with u have "t' \<noteq> t" by auto
    moreover from a assms(2) Clear_discard(2)
    have "futures s t' = Some Pending \<and> callables s t' \<noteq> None"
      by (auto simp: fut_inv_def)
    ultimately show ?thesis using fu Clear_discard(3) by simp
  qed
  have p2: "\<exists>f. callables s' t' = Some f \<and> futures s' t' = Some (Ready (f i))"
    if "(t', i) \<in> set (executed s')" for t' i
  proof -
    from that have e: "(t', i) \<in> set (executed s)" using Clear_discard(3) by simp
    then have "t' \<noteq> t" using u(3) by force
    with e assms(2) fu Clear_discard(3) show ?thesis by (auto simp: fut_inv_def)
  qed
  have p3: "futures s' t' = Some Broken" if "t' \<in> set (discarded s')" for t'
  proof (cases "t' = t")
    case True
    with fu show ?thesis by simp
  next
    case False
    with that have "t' \<in> set (discarded s)" using Clear_discard(3) by simp
    with False assms(2) fu show ?thesis by (auto simp: fut_inv_def)
  qed
  show ?thesis
    unfolding fut_inv_def using p1 p2 p3 by blast
qed (use assms(2) in \<open>auto simp: fut_inv_def inflight_keep\<close>)

lemma fut_inv_enter:
  assumes "wf_inv s" "fut_inv s" "enter c s = Some s'" shows "fut_inv s'"
  using assms(3)
proof (cases rule: enter_cases)
  case (Enqueue t f)
  then show ?thesis using assms(2)
    by (fastforce simp: fut_inv_def)
next
  case (Resize_grow n)
  then show ?thesis using assms(2)
    by (auto simp: fut_inv_def fold_InitThead)
next
  case (Resize_shrink n s0)
  from assms(1) have len: "length (threads s) < 2 ^ 32" by (simp add: wf_inv_def)
  from shrink_loop_Inr[OF Resize_shrink(6,5) len]
  have s0: "s0 = fold mark_at (rev [unat n..<length (threads s)]) s" by auto
  show ?thesis using assms(2) Resize_shrink(2,7)
    by (auto simp: fut_inv_def s0)
qed (use assms(2) in \<open>auto simp: fut_inv_def\<close>)

lemma fut_inv_step:
  "wf_inv s \<Longrightarrow> acct_inv s \<Longrightarrow> fut_inv s \<Longrightarrow> step a s = Some s' \<Longrightarrow> fut_inv s'"
  by (cases a) (auto simp: step_def intro: fut_inv_enter fut_inv_own fut_inv_work fut_inv_spurious)

lemma fut_inv_reachable: "reachable s \<Longrightarrow> fut_inv s"
proof (induction rule: reachable.induct)
  case reachable_init
  show ?case by (simp add: fut_inv_def init_pool_def inflight_def)
next
  case (reachable_step s a s')
  then show ?case using wf_inv_reachable acct_inv_reachable fut_inv_step by blast
qed

subsection \<open>The phases of Stop and Init\<close>

fun in_stop :: "cpc \<Rightarrow> bool" where
  "in_stop (Stop_Flags _ _) = True"
| "in_stop (ClearTasks_Pop _) = True"
| "in_stop (ClearTasks_Popping _) = True"
| "in_stop Stop_Lock = True"
| "in_stop Stop_Notify = True"
| "in_stop (Stop_Join _) = True"
| "in_stop Stop_Clear = True"
| "in_stop _ = False"

text \<open>The part of \<^verbatim>\<open>Stop\<close> that only \<^verbatim>\<open>Stop(false)\<close> runs (lines 63 to 69).\<close>

fun in_stop_now :: "cpc \<Rightarrow> bool" where
  "in_stop_now (Stop_Flags _ _) = True"
| "in_stop_now (ClearTasks_Pop Line69) = True"
| "in_stop_now (ClearTasks_Popping Line69) = True"
| "in_stop_now _ = False"

fun in_init :: "cpc \<Rightarrow> bool" where
  "in_init (Init_Lock _) = True"
| "in_init (Init_Notify _) = True"
| "in_init _ = False"

definition phase_inv :: "pool \<Rightarrow> bool" where
  "phase_inv s \<longleftrightarrow>
     (in_stop (caller s) \<longrightarrow> doneFlag s \<or> stopFlag s)
   \<and> (in_stop_now (caller s) \<longrightarrow> stopFlag s)
   \<and> (in_init (caller s) \<longrightarrow> \<not> doneFlag s \<and> \<not> stopFlag s)
   \<and> (\<not> in_stop (caller s) \<and> (doneFlag s \<or> stopFlag s) \<longrightarrow> threads s = [])
   \<and> (\<not> doneFlag s \<and> \<not> stopFlag s \<longrightarrow> discarded s = [])"

lemma in_stop_Popping [simp]:
  "in_stop_now (ClearTasks_Popping site) = in_stop_now (ClearTasks_Pop site)"
  by (cases site) simp_all

lemma phase_inv_work:
  assumes "phase_inv s" "threadFunction w s = Some s'" shows "phase_inv s'"
  using assms(2)
  by (cases rule: threadFunction_cases) (use assms(1) in \<open>auto simp: phase_inv_def\<close>)

lemma phase_inv_spurious:
  assumes "phase_inv s" "spurious_wakeup w s = Some s'" shows "phase_inv s'"
  using assms(2)
  by (cases rule: spurious_wakeup_cases) (use assms(1) in \<open>auto simp: phase_inv_def\<close>)

lemma phase_inv_own:
  assumes "phase_inv s" "owner_step k s = Some s'" shows "phase_inv s'"
  using assms(2)
  by (cases rule: owner_step_cases) (use assms(1) in \<open>auto simp: phase_inv_def\<close>)

lemma phase_inv_enter:
  assumes "wf_inv s" "phase_inv s" "enter c s = Some s'" shows "phase_inv s'"
  using assms(3)
proof (cases rule: enter_cases)
  case (Resize_grow n)
  then show ?thesis using assms(2)
    by (auto simp: phase_inv_def fold_InitThead)
next
  case (Resize_shrink n s0)
  from assms(1) have len: "length (threads s) < 2 ^ 32" by (simp add: wf_inv_def)
  from shrink_loop_Inr[OF Resize_shrink(6,5) len]
  have s0: "s0 = fold mark_at (rev [unat n..<length (threads s)]) s" by auto
  show ?thesis using assms(2) Resize_shrink(2,3,4,7)
    by (auto simp: phase_inv_def s0)
qed (use assms(2) in \<open>auto simp: phase_inv_def\<close>)

lemma phase_inv_step: "wf_inv s \<Longrightarrow> phase_inv s \<Longrightarrow> step a s = Some s' \<Longrightarrow> phase_inv s'"
  by (cases a) (auto simp: step_def intro: phase_inv_enter phase_inv_own phase_inv_work phase_inv_spurious)

lemma phase_inv_reachable: "reachable s \<Longrightarrow> phase_inv s"
proof (induction rule: reachable.induct)
  case reachable_init
  show ?case by (simp add: phase_inv_def init_pool_def)
next
  case (reachable_step s a s')
  then show ?case using wf_inv_reachable phase_inv_step by blast
qed

subsection \<open>Joined threads have returned\<close>

fun joined_slot :: "cpc \<Rightarrow> nat \<Rightarrow> bool" where
  "joined_slot (Stop_Join i) j = (j < unat i)"
| "joined_slot (ClearTasks_Pop Line85) j = True"
| "joined_slot (ClearTasks_Popping Line85) j = True"
| "joined_slot Stop_Clear j = True"
| "joined_slot _ j = False"

lemma joined_slot_Popping [simp]:
  "joined_slot (ClearTasks_Popping site) j = joined_slot (ClearTasks_Pop site) j"
  by (cases site) simp_all

definition exit_inv :: "pool \<Rightarrow> bool" where
  "exit_inv s \<longleftrightarrow>
     (\<forall>j<length (threads s). joined_slot (caller s) j \<longrightarrow> pc (workers s ! (threads s ! j)) = W_Exit)"

lemma exit_inv_work:
  assumes "wf_inv s" "exit_inv s" "threadFunction w s = Some s'" shows "exit_inv s'"
  using assms(3)
  by (cases rule: threadFunction_cases) (use assms(1,2) in \<open>auto simp: exit_inv_def wf_inv_def\<close>)

lemma exit_inv_spurious:
  assumes "wf_inv s" "exit_inv s" "spurious_wakeup w s = Some s'" shows "exit_inv s'"
  using assms(3)
  by (cases rule: spurious_wakeup_cases) (use assms(1,2) in \<open>auto simp: exit_inv_def wf_inv_def\<close>)

lemma exit_inv_own:
  assumes "wf_inv s" "exit_inv s" "owner_step k s = Some s'" shows "exit_inv s'"
  using assms(3)
proof (cases rule: owner_step_cases)
  case (Join i)
  then show ?thesis using assms(1,2)
    by (auto simp: exit_inv_def wf_inv_def unat_Suc_slot less_Suc_eq)
next
  case (Join_skip i)
  then show ?thesis using assms(1,2)
    by (auto simp: exit_inv_def wf_inv_def)
next
  case (Join_done i)
  then show ?thesis using assms(1,2)
    by (auto simp: exit_inv_def wf_inv_def unat_ThreadsCount word_less_nat_alt)
qed (use assms(1,2) in \<open>auto simp: exit_inv_def wf_inv_def\<close>)

lemma exit_inv_enter:
  assumes "wf_inv s" "exit_inv s" "enter c s = Some s'" shows "exit_inv s'"
  using assms(3)
proof (cases rule: enter_cases)
  case (Resize_grow n)
  then show ?thesis using assms(2)
    by (auto simp: exit_inv_def fold_InitThead)
next
  case (Resize_shrink n s0)
  from assms(1) have len: "length (threads s) < 2 ^ 32" by (simp add: wf_inv_def)
  from shrink_loop_Inr[OF Resize_shrink(6,5) len]
  have s0: "s0 = fold mark_at (rev [unat n..<length (threads s)]) s" by auto
  show ?thesis using assms(2) Resize_shrink(2,3,4,7)
    by (auto simp: exit_inv_def s0)
qed (use assms(2) in \<open>auto simp: exit_inv_def\<close>)

lemma exit_inv_step: "wf_inv s \<Longrightarrow> exit_inv s \<Longrightarrow> step a s = Some s' \<Longrightarrow> exit_inv s'"
  by (cases a) (auto simp: step_def intro: exit_inv_enter exit_inv_own exit_inv_work exit_inv_spurious)

lemma exit_inv_reachable: "reachable s \<Longrightarrow> exit_inv s"
proof (induction rule: reachable.induct)
  case reachable_init
  show ?case by (simp add: exit_inv_def init_pool_def)
next
  case (reachable_step s a s')
  then show ?case using wf_inv_reachable exit_inv_step by blast
qed

subsection \<open>Cancellation flags and wake-ups\<close>

fun detached_slot :: "cpc \<Rightarrow> nat \<Rightarrow> bool" where
  "detached_slot (Init_Lock n) j = (unat n \<le> j)"
| "detached_slot (Init_Notify n) j = (unat n \<le> j)"
| "detached_slot _ j = False"

fun flagged_slot :: "cpc \<Rightarrow> nat \<Rightarrow> bool" where
  "flagged_slot (Stop_Flags i tc) j = (j < unat i)"
| "flagged_slot _ j = True"

text \<open>The owner has set a flag that ends a wait and has not yet called \<^verbatim>\<open>notify_all\<close>.\<close>

fun pre_notify :: "cpc \<Rightarrow> bool" where
  "pre_notify (Stop_Flags _ _) = True"
| "pre_notify (ClearTasks_Pop Line69) = True"
| "pre_notify (ClearTasks_Popping Line69) = True"
| "pre_notify Stop_Lock = True"
| "pre_notify Stop_Notify = True"
| "pre_notify (Init_Lock _) = True"
| "pre_notify (Init_Notify _) = True"
| "pre_notify _ = False"

lemma pre_notify_Popping [simp]:
  "pre_notify (ClearTasks_Popping site) = pre_notify (ClearTasks_Pop site)"
  by (cases site) simp_all

definition flag_inv :: "pool \<Rightarrow> bool" where
  "flag_inv s \<longleftrightarrow>
     (\<forall>w<length (workers s). pc (workers s ! w) = W_Dec None \<or> pc (workers s ! w) = W_Exit
          \<longrightarrow> doneFlag s \<or> threadStopFlag (workers s ! w))
   \<and> (\<forall>j<length (threads s). threadStopFlag (workers s ! (threads s ! j))
          = (stopFlag s \<and> flagged_slot (caller s) j \<or> detached_slot (caller s) j))
   \<and> (\<forall>w<length (workers s). pc (workers s ! w) = W_Wait
          \<and> (doneFlag s \<or> threadStopFlag (workers s ! w)) \<longrightarrow> pre_notify (caller s))"

lemma flag_inv_work:
  assumes "wf_inv s" "flag_inv s" "threadFunction w s = Some s'" shows "flag_inv s'"
  using assms(3)
  by (cases rule: threadFunction_cases) (use assms(1,2) in \<open>auto simp: flag_inv_def wf_inv_def\<close>)

lemma flag_inv_spurious:
  assumes "wf_inv s" "flag_inv s" "spurious_wakeup w s = Some s'" shows "flag_inv s'"
  using assms(3)
  by (cases rule: spurious_wakeup_cases) (use assms(1,2) in \<open>auto simp: flag_inv_def wf_inv_def\<close>)


lemma flag_inv_own:
  assumes "wf_inv s" "phase_inv s" "flag_inv s" "owner_step k s = Some s'" shows "flag_inv s'"
  using assms(4)
proof (cases rule: owner_step_cases)
  case (Stop_flag i tc)
  then show ?thesis using assms(1,2,3)
    by (auto simp: flag_inv_def wf_inv_def phase_inv_def unat_Suc_slot less_Suc_eq nth_eq_iff_index_eq)
next
  case (Stop_flags_done i tc)
  then show ?thesis using assms(1,2,3)
    by (auto simp: flag_inv_def wf_inv_def phase_inv_def word_less_nat_alt)
next
  case (Init_notify n)
  then show ?thesis using assms(1,2,3)
    by (auto simp: flag_inv_def wf_inv_def phase_inv_def)
qed (use assms(1,2,3) in \<open>auto simp: flag_inv_def wf_inv_def phase_inv_def\<close>)

lemma flag_inv_enter:
  assumes "wf_inv s" "phase_inv s" "flag_inv s" "enter c s = Some s'" shows "flag_inv s'"
  using assms(4)
proof (cases rule: enter_cases)
  case (Resize_grow n)
  then show ?thesis using assms(1,3)
    by (auto simp: flag_inv_def wf_inv_def fold_InitThead nth_append fresh_worker_def)
next
  case (Resize_shrink n s0)
  from assms(1) have len: "length (threads s) < 2 ^ 32" by (simp add: wf_inv_def)
  from shrink_loop_Inr[OF Resize_shrink(6,5) len]
  have s0: "s0 = fold mark_at (rev [unat n..<length (threads s)]) s" by auto
  show ?thesis using assms(1,3) Resize_shrink(2,3,4,7)
    by (auto simp: flag_inv_def wf_inv_def s0 nth_eq_iff_index_eq)
qed (use assms(1,2,3) in \<open>auto simp: flag_inv_def wf_inv_def phase_inv_def\<close>)

lemma flag_inv_step:
  "wf_inv s \<Longrightarrow> phase_inv s \<Longrightarrow> flag_inv s \<Longrightarrow> step a s = Some s' \<Longrightarrow> flag_inv s'"
  by (cases a) (auto simp: step_def intro: flag_inv_enter flag_inv_own flag_inv_work flag_inv_spurious)

lemma flag_inv_reachable: "reachable s \<Longrightarrow> flag_inv s"
proof (induction rule: reachable.induct)
  case reachable_init
  show ?case by (simp add: flag_inv_def init_pool_def)
next
  case (reachable_step s a s')
  then show ?case using wf_inv_reachable phase_inv_reachable flag_inv_step by blast
qed

subsection \<open>Draining\<close>

text \<open>A worker that found the queue empty inside the wait predicate still holds
  \<^verbatim>\<open>_threadsMutex\<close>, so an \<^verbatim>\<open>Enqueue\<close> that has pushed since cannot have returned. Hence a
  worker that leaves on \<^verbatim>\<open>_doneFlag\<close> alone leaves an empty queue behind.\<close>

definition drain_inv :: "pool \<Rightarrow> bool" where
  "drain_inv s \<longleftrightarrow>
     (\<forall>w<length (workers s). pc (workers s ! w) = W_PredTest None
          \<longrightarrow> tasks s = [] \<or> caller s = Enqueue_Lock)
   \<and> (\<forall>w<length (workers s).
          (pc (workers s ! w) = W_Dec None \<or> pc (workers s ! w) = W_Exit)
          \<and> \<not> threadStopFlag (workers s ! w) \<and> \<not> stopFlag s \<and> in_stop (caller s)
          \<longrightarrow> tasks s = [])
   \<and> (caller s = Stop_Clear \<longrightarrow> tasks s = [])
   \<and> (\<not> stopFlag s \<and> threads s \<noteq> [] \<longrightarrow> discarded s = [])"

lemma drain_inv_work:
  assumes "drain_inv s" "threadFunction w s = Some s'" shows "drain_inv s'"
  using assms(2)
  by (cases rule: threadFunction_cases) (use assms(1) in \<open>auto simp: drain_inv_def\<close>)

lemma drain_inv_spurious:
  assumes "drain_inv s" "spurious_wakeup w s = Some s'" shows "drain_inv s'"
  using assms(2)
  by (cases rule: spurious_wakeup_cases) (use assms(1) in \<open>auto simp: drain_inv_def\<close>)

lemma drain_inv_own:
  assumes "wf_inv s" "lock_inv s" "phase_inv s" "exit_inv s" "flag_inv s" "drain_inv s"
    "owner_step k s = Some s'"
  shows "drain_inv s'"
  using assms(7)
proof (cases rule: owner_step_cases)
  case Enq_lock
  have "pc (workers s ! w) \<noteq> W_PredTest None" if "w < length (workers s)" for w
  proof
    assume "pc (workers s ! w) = W_PredTest None"
    then have "holds_threads_w (pc (workers s ! w))" by simp
    with that assms(2) have "threadsMutex s = Some (Thread w)" by (simp add: lock_inv_def)
    with Enq_lock(2) show False by simp
  qed
  then show ?thesis using assms(6) Enq_lock
    by (auto simp: drain_inv_def)
next
  case (Clear_discard site t q)
  have "stopFlag s \<or> threads s = []"
  proof (cases site)
    case Line69
    with Clear_discard(1) assms(3) show ?thesis by (simp add: phase_inv_def)
  next
    case Line85
    show ?thesis
    proof (rule ccontr)
      assume "\<not> (stopFlag s \<or> threads s = [])"
      then have ns: "\<not> stopFlag s" and len: "0 < length (threads s)" by auto
      let ?w = "threads s ! 0"
      from len assms(1) have w: "?w < length (workers s)" by (auto simp: wf_inv_def)
      from len assms(4) Clear_discard(1) Line85 have "pc (workers s ! ?w) = W_Exit"
        by (auto simp: exit_inv_def)
      moreover from len assms(5) Clear_discard(1) ns have "\<not> threadStopFlag (workers s ! ?w)"
        by (auto simp: flag_inv_def)
      ultimately have "tasks s = []"
        using assms(6) w ns Clear_discard(1) by (auto simp: drain_inv_def)
      with Clear_discard(2) show False by simp
    qed
  qed
  then show ?thesis using assms(6) Clear_discard
    by (auto simp: drain_inv_def)
qed (use assms(6) in \<open>auto simp: drain_inv_def\<close>)

lemma drain_inv_enter:
  assumes "wf_inv s" "phase_inv s" "flag_inv s" "drain_inv s" "enter c s = Some s'"
  shows "drain_inv s'"
  using assms(5)
proof (cases rule: enter_cases)
  case Stop_true
  then show ?thesis using assms(3,4)
    by (auto simp: drain_inv_def flag_inv_def)
next
  case (Resize_grow n)
  then show ?thesis using assms(2,4)
    by (auto simp: drain_inv_def phase_inv_def fold_InitThead nth_append fresh_worker_def)
next
  case (Resize_shrink n s0)
  from assms(1) have len: "length (threads s) < 2 ^ 32" by (simp add: wf_inv_def)
  from shrink_loop_Inr[OF Resize_shrink(6,5) len]
  have s0: "s0 = fold mark_at (rev [unat n..<length (threads s)]) s" by auto
  show ?thesis using assms(4) Resize_shrink(2,3,4,7)
    by (auto simp: drain_inv_def s0)
qed (use assms(4) in \<open>auto simp: drain_inv_def\<close>)

lemma drain_inv_step:
  "wf_inv s \<Longrightarrow> lock_inv s \<Longrightarrow> phase_inv s \<Longrightarrow> exit_inv s \<Longrightarrow> flag_inv s \<Longrightarrow> drain_inv s \<Longrightarrow>
   step a s = Some s' \<Longrightarrow> drain_inv s'"
  by (cases a) (auto simp: step_def intro: drain_inv_enter drain_inv_own drain_inv_work drain_inv_spurious)

lemma drain_inv_reachable: "reachable s \<Longrightarrow> drain_inv s"
proof (induction rule: reachable.induct)
  case reachable_init
  show ?case by (simp add: drain_inv_def init_pool_def)
next
  case (reachable_step s a s')
  then show ?case
    using wf_inv_reachable lock_inv_reachable phase_inv_reachable exit_inv_reachable
      flag_inv_reachable drain_inv_step by blast
qed

section \<open>What Stop leaves behind\<close>

lemma inflight_empty:
  assumes "\<forall>w<length ws. held (pc (ws ! w)) = {#}"
  shows "inflight ws = {#}"
proof -
  from assms have "\<forall>x\<in>set ws. held (pc x) = {#}"
    by (simp add: all_set_conv_all_nth)
  then show ?thesis
    unfolding inflight_def by (induction ws) simp_all
qed

lemma no_detached_exit:
  assumes "wf_inv s" "exit_inv s" "detached s = []" "\<forall>j. joined_slot (caller s) j"
    "w < length (workers s)"
  shows "pc (workers s ! w) = W_Exit"
proof (cases "w \<in> set (threads s)")
  case True
  then obtain j where "j < length (threads s)" "threads s ! j = w"
    by (auto simp: in_set_conv_nth)
  with assms(2,4) show ?thesis by (auto simp: exit_inv_def)
next
  case False
  from assms(3) have "\<forall>x\<in>set [0..<length (workers s)]. \<not> (x \<notin> set (threads s) \<and> pc (workers s ! x) \<noteq> W_Exit)"
    unfolding detached_def filter_empty_conv .
  with False assms(5) show ?thesis by auto
qed

text \<open>When \<^verbatim>\<open>Stop\<close> is about to clear the vectors (line 86) and no detached worker is still
  running, the queue is empty, no worker holds a task, and every task ever pushed has been
  invoked or deleted.\<close>

lemma Stop_Clear_settled:
  assumes "reachable s" "caller s = Stop_Clear" "detached s = []"
  shows "tasks s = []" "inflight (workers s) = {#}"
    "mset (enqueued s) = mset (map fst (executed s)) + mset (discarded s)"
proof -
  note wf = wf_inv_reachable[OF assms(1)] and ex = exit_inv_reachable[OF assms(1)]
  from drain_inv_reachable[OF assms(1)] assms(2) show q: "tasks s = []"
    by (simp add: drain_inv_def)
  have "pc (workers s ! w) = W_Exit" if "w < length (workers s)" for w
    using no_detached_exit[OF wf ex assms(3) _ that] assms(2) by simp
  then show i: "inflight (workers s) = {#}"
    by (intro inflight_empty) simp
  from acct_inv_reachable[OF assms(1)] q i
  show "mset (enqueued s) = mset (map fst (executed s)) + mset (discarded s)"
    by (simp add: acct_inv_def)
qed

lemma executed_has_future:
  assumes "reachable s" "t \<in> fst ` set (executed s)"
  shows "\<exists>st. futures s t = Some st \<and> future_get st \<noteq> None"
proof -
  from assms(2) obtain i where "(t, i) \<in> set (executed s)" by auto
  with fut_inv_reachable[OF assms(1)]
  have "\<exists>f. callables s t = Some f \<and> futures s t = Some (Ready (f i))"
    unfolding fut_inv_def by blast
  then obtain f where "futures s t = Some (Ready (f i))" by blast
  then show ?thesis by (cases "f i") (simp_all add: future_get_def)
qed

text \<open>
  Claim C2, as the code has it. Take a \<^verbatim>\<open>Stop(true)\<close> that took effect (the owner is at
  line 86 and \<^verbatim>\<open>_stopFlag\<close> is not set) on a pool with at least one worker and no detached
  worker still running. When it returns, every task pushed so far has been invoked by a
  worker, exactly once, none has been deleted, the queue is empty, every result handle
  can be read without blocking, and both vectors are empty.
\<close>

theorem Stop_true_drains:
  assumes "reachable s" "caller s = Stop_Clear" "\<not> stopFlag s" "threads s \<noteq> []"
    "detached s = []"
  shows "mset (map fst (executed s)) = mset (enqueued s) \<and> distinct (map fst (executed s))
       \<and> discarded s = []
       \<and> (\<forall>t\<in>set (enqueued s). \<exists>st. futures s t = Some st \<and> future_get st \<noteq> None)
       \<and> (\<exists>s'. step (Own k) s = Some s' \<and> caller s' = C_Idle \<and> tasks s' = []
              \<and> threads s' = [] \<and> threadsStopFlags s' = []
              \<and> executed s' = executed s \<and> futures s' = futures s)"
proof -
  note settled = Stop_Clear_settled[OF assms(1,2,5)]
  from drain_inv_reachable[OF assms(1)] assms(3,4) have d: "discarded s = []"
    by (simp add: drain_inv_def)
  with settled(3) have e: "mset (map fst (executed s)) = mset (enqueued s)" by simp
  from acct_inv_reachable[OF assms(1)] have "distinct (enqueued s)" by (simp add: acct_inv_def)
  with e have dist: "distinct (map fst (executed s))"
    by (metis mset_eq_imp_distinct_iff)
  have fut: "\<exists>st. futures s t = Some st \<and> future_get st \<noteq> None" if "t \<in> set (enqueued s)" for t
  proof -
    from that e have "t \<in> fst ` set (executed s)"
      by (metis mset_eq_setD set_map)
    then show ?thesis by (rule executed_has_future[OF assms(1)])
  qed
  have "step (Own k) s = Some (s\<lparr>threads := [], threadsStopFlags := [], caller := C_Idle\<rparr>)"
    using assms(2) by (simp add: step_def owner_step_def)
  with settled(1) e dist d fut show ?thesis by simp
qed

text \<open>One worker runs one task and goes idle; \<^verbatim>\<open>Stop(true)\<close> wakes it, joins it and reaches
  line 86.\<close>

definition one_task_then_stop :: "action list" where
  "one_task_then_stop =
     [Call (Resize 1),
      Call (Enqueue 7 (\<lambda>i. Returned (int i + 35))), Own 0, Own 0, Own 0, Own 0,
      Work 0, Work 0, Work 0, Work 0, Work 0, Work 0, Work 0, Work 0, Work 0, Work 0, Work 0,
      Call (Stop True), Own 0, Own 0,
      Work 0, Work 0, Work 0, Work 0, Work 0,
      Own 0, Own 0, Own 0, Own 0]"

lemma one_task_then_stop_state:
  "map_option (\<lambda>s. (caller s, stopFlag s, threads s, map pc (workers s)))
     (run one_task_then_stop init_pool) = Some (Stop_Clear, False, [0], [W_Exit])"
  by code_simp

theorem Stop_true_drains_witness:
  "(let s = the (run one_task_then_stop init_pool) in
     reachable s \<and> caller s = Stop_Clear \<and> \<not> stopFlag s \<and> threads s \<noteq> [] \<and> detached s = []
     \<and> mset (map fst (executed s)) = mset (enqueued s) \<and> discarded s = []
     \<and> enqueued s = [7] \<and> futures s 7 = Some (Ready (Returned 35)))"
proof -
  from one_task_then_stop_state obtain s where s: "run one_task_then_stop init_pool = Some s"
    and c: "caller s = Stop_Clear" "\<not> stopFlag s" "threads s = [0]" "map pc (workers s) = [W_Exit]"
    by auto
  from s have r: "reachable s" using reachable_run[OF reachable_init] by blast
  from c(4) have w: "length (workers s) = 1" "pc (workers s ! 0) = W_Exit"
    by (auto simp: map_eq_Cons_conv)
  then have d: "detached s = []" by (simp add: detached_def)
  have e: "map_option enqueued (run one_task_then_stop init_pool) = Some [7]" by code_simp
  have f: "map_option (\<lambda>s. futures s 7) (run one_task_then_stop init_pool) = Some (Some (Ready (Returned 35)))"
    by code_simp
  from Stop_true_drains[OF r c(1,2) _ d, of 0] c(3) s e f r c d show ?thesis
    by simp
qed

text \<open>A pool built with no worker, \<^verbatim>\<open>ThreadPool(0)\<close>: one task is submitted, then
  \<^verbatim>\<open>Stop(true)\<close> runs to its end.\<close>

definition no_worker_stop :: "action list" where
  "no_worker_stop =
     [Call (Resize 0),
      Call (Enqueue 7 (\<lambda>i. Returned (int i + 35))), Own 0, Own 0, Own 0, Own 0,
      Call (Stop True), Own 0, Own 0, Own 0, Own 0, Own 0, Own 0, Own 0, Own 0]"

text \<open>
  Claim C2 as stated fails on a pool without workers: \<^verbatim>\<open>Stop(true)\<close> takes effect and
  returns, and the task submitted before was never invoked: the final \<^verbatim>\<open>ClearTasks\<close>
  deleted it, and its result handle holds \<^verbatim>\<open>broken_promise\<close>.
\<close>

theorem Stop_true_discards_without_workers:
  "map_option (\<lambda>s. (caller s, doneFlag s, stopFlag s, enqueued s, executed s, discarded s,
                    tasks s, futures s 7))
     (run no_worker_stop init_pool)
   = Some (C_Idle, True, False, [7], [], [7], [], Some Broken)"
  by code_simp

section \<open>Every task is invoked or deleted at most once\<close>

lemma distinct_submset:
  assumes "distinct ys" "mset xs \<subseteq># mset ys"
  shows "distinct xs"
proof -
  have "count (mset xs) a = (if a \<in> set xs then 1 else 0)" for a
  proof -
    have "count (mset xs) a \<le> count (mset ys) a"
      by (rule mset_subset_eq_count[OF assms(2)])
    also have "\<dots> \<le> 1" using assms(1) by (simp add: distinct_count_atmost_1)
    finally have le: "count (mset xs) a \<le> 1" .
    show ?thesis
    proof (cases "a \<in> set xs")
      case True
      then have "0 < count (mset xs) a" by simp
      with le have "count (mset xs) a = 1" by arith
      with True show ?thesis by simp
    next
      case False
      then have "count (mset xs) a = 0" by (simp add: count_eq_zero_iff)
      with False show ?thesis by simp
    qed
  qed
  then show ?thesis by (simp add: distinct_count_atmost_1)
qed

lemma distinct_disjoint_parts:
  assumes "distinct E" "mset E = A + B"
  shows "set_mset A \<inter> set_mset B = {}"
proof (rule ccontr)
  assume "set_mset A \<inter> set_mset B \<noteq> {}"
  then obtain t where "t \<in># A" "t \<in># B" by auto
  then have "0 < count A t" "0 < count B t" by simp_all
  then have "2 \<le> count A t + count B t" by arith
  then have "2 \<le> count (A + B) t" by (simp only: count_union)
  moreover from assms(1) have "count (mset E) t \<le> 1" by (simp add: distinct_count_atmost_1)
  ultimately show False using assms(2) by simp
qed

definition all_exited :: "pool \<Rightarrow> bool" where
  "all_exited s \<longleftrightarrow> (\<forall>w<length (workers s). pc (workers s ! w) = W_Exit)"

text \<open>Once a stop flag is set and every worker has returned, no step invokes a task and
  no step starts a worker.\<close>

lemma stopped_step:
  assumes "all_exited s" "doneFlag s \<or> stopFlag s" "step a s = Some s'"
  shows "all_exited s' \<and> (doneFlag s' \<or> stopFlag s') \<and> executed s' = executed s"
proof (cases a)
  case (Call c)
  with assms(3) have "enter c s = Some s'" by (simp add: step_def)
  then show ?thesis
    by (cases rule: enter_cases) (use assms(1,2) in \<open>auto simp: all_exited_def\<close>)
next
  case (Own k)
  with assms(3) have "owner_step k s = Some s'" by (simp add: step_def)
  then show ?thesis
    by (cases rule: owner_step_cases) (use assms(1,2) in \<open>auto simp: all_exited_def\<close>)
next
  case (Work w)
  with assms(3) have "threadFunction w s = Some s'" by (simp add: step_def)
  then show ?thesis
    by (cases rule: threadFunction_cases) (use assms(1) in \<open>auto simp: all_exited_def\<close>)
next
  case (Spurious w)
  with assms(3) have "spurious_wakeup w s = Some s'" by (simp add: step_def)
  then show ?thesis
    by (cases rule: spurious_wakeup_cases) (use assms(1) in \<open>auto simp: all_exited_def\<close>)
qed

lemma stopped_run:
  "all_exited s \<Longrightarrow> doneFlag s \<or> stopFlag s \<Longrightarrow> run as s = Some s' \<Longrightarrow> executed s' = executed s"
proof (induction as arbitrary: s)
  case Nil
  then show ?case by simp
next
  case (Cons a as)
  from Cons.prems(3) obtain u where u: "step a s = Some u" "run as u = Some s'"
    by (auto split: option.splits)
  from stopped_step[OF Cons.prems(1,2) u(1)] Cons.IH[OF _ _ u(2)] show ?case by simp
qed

lemma stopped_all_exited:
  assumes "reachable s" "doneFlag s \<or> stopFlag s" "caller s = C_Idle" "detached s = []"
  shows "all_exited s"
proof -
  from phase_inv_reachable[OF assms(1)] assms(2,3) have "threads s = []"
    by (simp add: phase_inv_def)
  moreover from assms(4)
  have "\<forall>x\<in>set [0..<length (workers s)]. \<not> (x \<notin> set (threads s) \<and> pc (workers s ! x) \<noteq> W_Exit)"
    unfolding detached_def filter_empty_conv .
  ultimately show ?thesis by (simp add: all_exited_def)
qed

lemma stopped_run_exited:
  "all_exited s \<Longrightarrow> doneFlag s \<or> stopFlag s \<Longrightarrow> run as s = Some s' \<Longrightarrow> all_exited s'"
proof (induction as arbitrary: s)
  case Nil
  then show ?case by simp
next
  case (Cons a as)
  from Cons.prems(3) obtain u where u: "step a s = Some u" "run as u = Some s'"
    by (auto split: option.splits)
  from stopped_step[OF Cons.prems(1,2) u(1)] Cons.IH[OF _ _ u(2)] show ?case by simp
qed

lemma all_exited_inflight: "all_exited s \<Longrightarrow> inflight (workers s) = {#}"
  by (intro inflight_empty) (simp add: all_exited_def)

text \<open>
  Claim C1, as the code has it. In every reachable state every pushed task is in exactly
  one place: in the queue (its result handle pending), held by the one worker that has
  popped it, invoked (once), or deleted by \<^verbatim>\<open>ClearTasks\<close> (once); so no task is invoked
  twice, deleted twice, or both. When a \<^verbatim>\<open>Stop\<close> that took effect returns and no detached
  worker is still running, every task pushed before has been invoked or deleted. After
  that no task is invoked any more, whatever is called: \<^verbatim>\<open>Stop(true)\<close>, which the destructor
  calls, returns at line 55 and changes nothing, and a task submitted after \<^verbatim>\<open>Stop\<close> has
  returned is in the queue with its result handle pending, or has been deleted by
  \<^verbatim>\<open>ClearTasks\<close>; it is never invoked.
\<close>

theorem every_task_once:
  assumes "reachable s"
  shows "distinct (enqueued s)
       \<and> mset (enqueued s)
           = mset (tasks s) + inflight (workers s) + mset (map fst (executed s))
             + mset (discarded s)
       \<and> distinct (map fst (executed s)) \<and> distinct (discarded s)
       \<and> fst ` set (executed s) \<inter> set (discarded s) = {}
       \<and> (fst ` set (executed s) \<union> set (discarded s))
           \<inter> (set (tasks s) \<union> set_mset (inflight (workers s))) = {}
       \<and> set (tasks s) \<inter> set_mset (inflight (workers s)) = {}
       \<and> set (enqueued s)
           = set (tasks s) \<union> set_mset (inflight (workers s)) \<union> fst ` set (executed s)
             \<union> set (discarded s)
       \<and> (\<forall>t\<in>set (tasks s). futures s t = Some Pending)
       \<and> (caller s = Stop_Clear \<and> detached s = []
            \<longrightarrow> set (enqueued s) = fst ` set (executed s) \<union> set (discarded s))
       \<and> ((doneFlag s \<or> stopFlag s) \<and> caller s = C_Idle \<and> detached s = []
            \<longrightarrow> step (Call (Stop True)) s = Some s
              \<and> (\<forall>as s'. run as s = Some s'
                    \<longrightarrow> executed s' = executed s
                      \<and> set (enqueued s')
                          = set (tasks s') \<union> fst ` set (executed s) \<union> set (discarded s')
                      \<and> (\<forall>t\<in>set (tasks s'). futures s' t = Some Pending)))"
proof -
  have acct: "distinct (enqueued u)
      \<and> mset (enqueued u)
         = mset (tasks u) + inflight (workers u) + mset (map fst (executed u)) + mset (discarded u)"
    if "reachable u" for u
    using acct_inv_reachable[OF that] by (simp add: acct_inv_def)
  have pend: "\<forall>t\<in>set (tasks u). futures u t = Some Pending" if "reachable u" for u
    using fut_inv_reachable[OF that] by (simp add: fut_inv_def)
  have sets: "set (enqueued u)
       = set (tasks u) \<union> set_mset (inflight (workers u)) \<union> fst ` set (executed u)
         \<union> set (discarded u)" if "reachable u" for u
  proof -
    from acct[OF that] have m: "mset (enqueued u)
         = mset (tasks u) + inflight (workers u) + mset (map fst (executed u)) + mset (discarded u)"
      by simp
    have "set (enqueued u) = set_mset (mset (enqueued u))" by simp
    also have "\<dots> = set_mset (mset (tasks u) + inflight (workers u) + mset (map fst (executed u))
          + mset (discarded u))"
      by (simp only: m)
    also have "\<dots> = set (tasks u) \<union> set_mset (inflight (workers u)) \<union> fst ` set (executed u)
         \<union> set (discarded u)"
      by simp
    finally show ?thesis .
  qed
  from acct[OF assms] have d: "distinct (enqueued s)"
    and m: "mset (enqueued s)
       = mset (tasks s) + inflight (workers s) + mset (map fst (executed s)) + mset (discarded s)"
    by simp_all
  have "mset (map fst (executed s)) \<subseteq># mset (enqueued s)"
    "mset (discarded s) \<subseteq># mset (enqueued s)"
    unfolding m by simp_all
  then have a: "distinct (map fst (executed s))" "distinct (discarded s)"
    using d by (auto intro: distinct_submset)
  from m have "mset (enqueued s)
      = (mset (tasks s) + inflight (workers s) + mset (map fst (executed s))) + mset (discarded s)"
    by simp
  from distinct_disjoint_parts[OF d this]
  have b: "fst ` set (executed s) \<inter> set (discarded s) = {}"
    by auto
  from m have "mset (enqueued s)
      = (mset (tasks s) + inflight (workers s)) + (mset (map fst (executed s)) + mset (discarded s))"
    by (simp add: ac_simps)
  from distinct_disjoint_parts[OF d this]
  have c: "(fst ` set (executed s) \<union> set (discarded s))
           \<inter> (set (tasks s) \<union> set_mset (inflight (workers s))) = {}"
    by auto
  from m have "mset (enqueued s)
      = mset (tasks s) + (inflight (workers s) + mset (map fst (executed s)) + mset (discarded s))"
    by (simp add: ac_simps)
  from distinct_disjoint_parts[OF d this]
  have c': "set (tasks s) \<inter> set_mset (inflight (workers s)) = {}"
    by auto
  note e = sets[OF assms]
  note p = pend[OF assms]
  have F: "caller s = Stop_Clear \<and> detached s = []
            \<longrightarrow> set (enqueued s) = fst ` set (executed s) \<union> set (discarded s)"
  proof (intro impI, elim conjE)
    assume "caller s = Stop_Clear" "detached s = []"
    from Stop_Clear_settled(1,2)[OF assms this] e
    show "set (enqueued s) = fst ` set (executed s) \<union> set (discarded s)" by simp
  qed
  have G: "(doneFlag s \<or> stopFlag s) \<and> caller s = C_Idle \<and> detached s = []
            \<longrightarrow> step (Call (Stop True)) s = Some s
              \<and> (\<forall>as s'. run as s = Some s'
                    \<longrightarrow> executed s' = executed s
                      \<and> set (enqueued s')
                          = set (tasks s') \<union> fst ` set (executed s) \<union> set (discarded s')
                      \<and> (\<forall>t\<in>set (tasks s'). futures s' t = Some Pending))"
  proof (intro impI, elim conjE, intro conjI allI impI)
    assume st: "doneFlag s \<or> stopFlag s" and i: "caller s = C_Idle" and dt: "detached s = []"
    from st i show "step (Call (Stop True)) s = Some s"
      by (auto simp: step_def enter_def)
    fix as s' assume r: "run as s = Some s'"
    note ae = stopped_all_exited[OF assms st i dt]
    from stopped_run[OF ae st r] show x: "executed s' = executed s" .
    from reachable_run[OF assms r] have r': "reachable s'" .
    from all_exited_inflight[OF stopped_run_exited[OF ae st r]] sets[OF r'] x
    show "set (enqueued s') = set (tasks s') \<union> fst ` set (executed s) \<union> set (discarded s')"
      by simp
    from pend[OF r'] show "\<forall>t\<in>set (tasks s'). futures s' t = Some Pending" .
  qed
  show ?thesis by (intro conjI d m a b c c' e p F G)
qed

text \<open>The pool of one worker has run its task and \<^verbatim>\<open>Stop(true)\<close> has returned; then a
  task is submitted, and at last the destructor runs \<^verbatim>\<open>Stop(true)\<close> again.\<close>

definition enqueue_after_stop :: "action list" where
  "enqueue_after_stop =
     one_task_then_stop @
     [Own 0,
      Call (Enqueue 8 (\<lambda>i. Returned 1)), Own 0, Own 0, Own 0, Own 0,
      Call (Stop True)]"

text \<open>
  Claim C1 as stated fails for a task submitted after \<^verbatim>\<open>Stop\<close> has returned: \<^verbatim>\<open>Enqueue\<close>
  pushes it, no worker is left to pop it, and the \<^verbatim>\<open>Stop(true)\<close> of the destructor returns
  at line 55 without \<^verbatim>\<open>ClearTasks\<close>. Task 8 is neither invoked nor deleted; it stays in
  the queue and its result handle stays pending.
\<close>

theorem task_after_stop_neither:
  "map_option (\<lambda>s. (caller s, doneFlag s, tasks s, enqueued s, executed s, discarded s,
                    map pc (workers s), threads s, futures s 8))
     (run enqueue_after_stop init_pool)
   = Some (C_Idle, True, [8], [7, 8], [(7, 0)], [], [W_Exit], [], Some Pending)"
  by code_simp

theorem every_task_once_witness:
  "(let s = the (run enqueue_after_stop init_pool) in
     reachable s \<and> doneFlag s \<and> caller s = C_Idle \<and> detached s = []
     \<and> distinct (map fst (executed s)) \<and> distinct (discarded s)
     \<and> fst ` set (executed s) \<inter> set (discarded s) = {}
     \<and> mset (enqueued s)
         = mset (tasks s) + inflight (workers s) + mset (map fst (executed s))
           + mset (discarded s)
     \<and> enqueued s = [7, 8] \<and> tasks s = [8] \<and> executed s = [(7, 0)] \<and> discarded s = []
     \<and> futures s 8 = Some Pending
     \<and> step (Call (Stop True)) s = Some s)"
proof -
  have "map_option (\<lambda>s. (caller s, doneFlag s, tasks s, enqueued s, executed s, discarded s,
                    map pc (workers s)))
     (run enqueue_after_stop init_pool)
   = Some (C_Idle, True, [8], [7, 8], [(7, 0)], [], [W_Exit])"
    by code_simp
  then obtain s where s: "run enqueue_after_stop init_pool = Some s"
    and c: "caller s = C_Idle" "doneFlag s" "tasks s = [8]" "enqueued s = [7, 8]"
      "executed s = [(7, 0)]" "discarded s = []" "map pc (workers s) = [W_Exit]"
    by auto
  from s have r: "reachable s" using reachable_run[OF reachable_init] by blast
  from c(7) have "length (workers s) = 1" "pc (workers s ! 0) = W_Exit"
    by (auto simp: map_eq_Cons_conv)
  then have d: "detached s = []" by (simp add: detached_def)
  note t = every_task_once[OF r]
  from t have m: "mset (enqueued s)
         = mset (tasks s) + inflight (workers s) + mset (map fst (executed s))
           + mset (discarded s)"
    by blast
  from t c(3) have p: "futures s 8 = Some Pending" by simp
  from t c(1,2) d have n: "step (Call (Stop True)) s = Some s" by blast
  from s r c d m p n show ?thesis by simp
qed

section \<open>Stopping at once\<close>

text \<open>
  Claim C4, as the code has it. In every reachable state, a task that \<^verbatim>\<open>ClearTasks\<close> has
  deleted was never invoked and its result handle holds \<^verbatim>\<open>broken_promise\<close>, so that a
  read raises an error instead of blocking. A task that a worker holds is invoked by the
  worker's next step, whatever the flags are, and its result handle then holds the
  outcome of its callable. When \<^verbatim>\<open>Stop\<close> returns and no detached worker is still running,
  the queue is empty and every task pushed before has been deleted or invoked.
\<close>

theorem discarded_broken_promise:
  assumes "reachable s"
  shows "(\<forall>t\<in>set (discarded s).
            t \<notin> fst ` set (executed s) \<and> futures s t = Some Broken
            \<and> Option.bind (futures s t) future_get = Some (Inl BrokenPromise))
       \<and> (\<forall>w<length (workers s). \<forall>t. pc (workers s ! w) = W_Exec t \<longrightarrow>
            (\<exists>s' f. threadFunction w s = Some s' \<and> callables s t = Some f
               \<and> futures s' t = Some (Ready (f (index (workers s ! w))))
               \<and> executed s' = executed s @ [(t, index (workers s ! w))]
               \<and> discarded s' = discarded s))
       \<and> (caller s = Stop_Clear \<and> detached s = []
            \<longrightarrow> tasks s = [] \<and> set (enqueued s) = fst ` set (executed s) \<union> set (discarded s))"
proof -
  note acct = acct_inv_reachable[OF assms] and fut = fut_inv_reachable[OF assms]
  from acct have d: "distinct (enqueued s)"
    and m: "mset (enqueued s)
       = (mset (tasks s) + inflight (workers s) + mset (map fst (executed s))) + mset (discarded s)"
    by (simp_all add: acct_inv_def)
  from distinct_disjoint_parts[OF d m]
  have disj: "fst ` set (executed s) \<inter> set (discarded s) = {}" by auto
  have A: "t \<notin> fst ` set (executed s) \<and> futures s t = Some Broken
            \<and> Option.bind (futures s t) future_get = Some (Inl BrokenPromise)"
    if "t \<in> set (discarded s)" for t
  proof -
    from that fut have "futures s t = Some Broken" by (simp add: fut_inv_def)
    moreover from that disj have "t \<notin> fst ` set (executed s)" by blast
    ultimately show ?thesis by (simp add: future_get_def)
  qed
  have B: "\<exists>s' f. threadFunction w s = Some s' \<and> callables s t = Some f
               \<and> futures s' t = Some (Ready (f (index (workers s ! w))))
               \<and> executed s' = executed s @ [(t, index (workers s ! w))]
               \<and> discarded s' = discarded s"
    if "w < length (workers s)" "pc (workers s ! w) = W_Exec t" for w t
  proof -
    have "held (pc (workers s ! w)) = {#t#}" "held W_Check = {#}" using that(2) by simp_all
    from acct_held_unique(5)[OF acct that(1) this] fut
    obtain f where f: "callables s t = Some f" "futures s t = Some Pending"
      by (auto simp: fut_inv_def)
    let ?s' = "set_pc w W_Check (invoke t (index (workers s ! w)) s)"
    have "threadFunction w s = Some ?s'" using that by (simp add: threadFunction_def)
    moreover have "futures ?s' t = Some (Ready (f (index (workers s ! w))))"
      using f by (simp add: invoke_def)
    ultimately show ?thesis using f(1) by auto
  qed
  have C: "tasks s = [] \<and> set (enqueued s) = fst ` set (executed s) \<union> set (discarded s)"
    if "caller s = Stop_Clear" "detached s = []"
  proof -
    note settled = Stop_Clear_settled[OF assms that]
    have "set (enqueued s) = set_mset (mset (enqueued s))" by simp
    also have "\<dots> = set_mset (mset (map fst (executed s)) + mset (discarded s))"
      by (simp only: settled(3))
    also have "\<dots> = fst ` set (executed s) \<union> set (discarded s)" by simp
    finally show ?thesis using settled(1) by simp
  qed
  show ?thesis
  proof (intro conjI ballI allI impI)
    fix t assume "t \<in> set (discarded s)"
    from A[OF this] show "t \<notin> fst ` set (executed s)" "futures s t = Some Broken"
      "Option.bind (futures s t) future_get = Some (Inl BrokenPromise)" by blast+
  next
    fix w t assume "w < length (workers s)" "pc (workers s ! w) = W_Exec t"
    then show "\<exists>s' f. threadFunction w s = Some s' \<and> callables s t = Some f
               \<and> futures s' t = Some (Ready (f (index (workers s ! w))))
               \<and> executed s' = executed s @ [(t, index (workers s ! w))]
               \<and> discarded s' = discarded s" by (rule B)
  next
    assume "caller s = Stop_Clear \<and> detached s = []"
    then show "tasks s = []" using C by blast
  next
    assume "caller s = Stop_Clear \<and> detached s = []"
    then show "set (enqueued s) = fst ` set (executed s) \<union> set (discarded s)" using C by blast
  qed
qed

text \<open>A worker has just been started and a task is in the queue when \<^verbatim>\<open>Stop(false)\<close> is
  called. The worker pops the task before \<^verbatim>\<open>ClearTasks\<close> runs, invokes it, then sees its
  flag and returns; \<^verbatim>\<open>Stop\<close> joins it and returns.\<close>

definition call_stop_now :: "action list" where
  "call_stop_now =
     [Call (Resize 1),
      Call (Enqueue 7 (\<lambda>i. Returned (int i + 35))), Own 0, Own 0, Own 0, Own 0,
      Call (Stop False)]"

definition stop_now_race :: "action list" where
  "stop_now_race =
     call_stop_now @
     [Work 0, Work 0, Work 0,
      Own 0, Own 0, Own 0, Own 0, Own 0, Own 0,
      Work 0,
      Own 0, Own 0, Own 0, Own 0, Own 0]"

text \<open>
  Claim C4 as stated fails: task 7 is in the queue at the moment \<^verbatim>\<open>Stop(false)\<close> is called
  (first component), and when \<^verbatim>\<open>Stop(false)\<close> has returned it has been invoked, not
  deleted, and its result handle holds its value.
\<close>

theorem queued_task_runs_despite_stop_now:
  "(map_option (\<lambda>s. (tasks s, stopFlag s, executed s)) (run call_stop_now init_pool),
    map_option (\<lambda>s. (caller s, stopFlag s, tasks s, executed s, discarded s, futures s 7,
                      map pc (workers s)))
      (run stop_now_race init_pool))
   = (Some ([7], True, []),
      Some (C_Idle, True, [], [(7, 0)], [], Some (Ready (Returned 35)), [W_Exit]))"
  by code_simp

text \<open>A worker is busy with task 7 when task 8 is submitted and \<^verbatim>\<open>Stop(false)\<close> is called
  and has deleted task 8.\<close>

definition stop_now_discards :: "action list" where
  "stop_now_discards =
     [Call (Resize 1),
      Call (Enqueue 7 (\<lambda>i. Returned (int i + 35))), Own 0, Own 0, Own 0, Own 0,
      Work 0, Work 0,
      Call (Enqueue 8 (\<lambda>i. Returned 1)), Own 0, Own 0, Own 0, Own 0,
      Call (Stop False), Own 0, Own 0, Own 0, Own 0]"

lemma stop_now_discards_state:
  "map_option (\<lambda>s. (discarded s, map pc (workers s), futures s 8, executed s))
     (run stop_now_discards init_pool)
   = Some ([8], [W_Exec 7], Some Broken, [])"
  by code_simp

theorem discarded_broken_promise_witness:
  "(let s = the (run stop_now_discards init_pool) in
     reachable s \<and> discarded s = [8] \<and> 8 \<notin> fst ` set (executed s)
     \<and> Option.bind (futures s 8) future_get = Some (Inl BrokenPromise)
     \<and> pc (workers s ! 0) = W_Exec 7
     \<and> (\<exists>s' f. threadFunction 0 s = Some s' \<and> callables s 7 = Some f
           \<and> futures s' 7 = Some (Ready (f (index (workers s ! 0))))))"
proof -
  from stop_now_discards_state obtain s where s: "run stop_now_discards init_pool = Some s"
    and c: "discarded s = [8]" "map pc (workers s) = [W_Exec 7]"
    by auto
  from s have r: "reachable s" using reachable_run[OF reachable_init] by blast
  from c(2) have w: "0 < length (workers s)" "pc (workers s ! 0) = W_Exec 7"
    by (auto simp: map_eq_Cons_conv)
  note th = discarded_broken_promise[OF r]
  from th have "\<forall>t\<in>set (discarded s).
            t \<notin> fst ` set (executed s) \<and> futures s t = Some Broken
            \<and> Option.bind (futures s t) future_get = Some (Inl BrokenPromise)"
    by (rule conjunct1)
  with c(1) have A: "8 \<notin> fst ` set (executed s)"
    "Option.bind (futures s 8) future_get = Some (Inl BrokenPromise)"
    by (simp_all add: future_get_def)
  from th have "\<forall>w<length (workers s). \<forall>t. pc (workers s ! w) = W_Exec t \<longrightarrow>
            (\<exists>s' f. threadFunction w s = Some s' \<and> callables s t = Some f
               \<and> futures s' t = Some (Ready (f (index (workers s ! w))))
               \<and> executed s' = executed s @ [(t, index (workers s ! w))]
               \<and> discarded s' = discarded s)"
    by (rule conjunct1[OF conjunct2])
  with w have B: "\<exists>s' f. threadFunction 0 s = Some s' \<and> callables s 7 = Some f
           \<and> futures s' 7 = Some (Ready (f (index (workers s ! 0))))" by blast
  from r c(1) A w(2) B s show ?thesis by simp
qed

section \<open>A task that throws\<close>





text \<open>One worker, a task that throws and then a task that returns; the worker has popped
  the first.\<close>

definition failing_task_popped :: "action list" where
  "failing_task_popped =
     [Call (Resize 1),
      Call (Enqueue 7 (\<lambda>i. Raised ''Task05'')), Own 0, Own 0, Own 0, Own 0,
      Call (Enqueue 8 (\<lambda>i. Returned (int i + 1))), Own 0, Own 0, Own 0, Own 0,
      Work 0, Work 0]"


text \<open>The same worker goes on: it invokes the failing task, pops the next one and invokes
  it; each handle holds its own outcome.\<close>

lemma failing_task_then_next:
  "map_option (\<lambda>s. (executed s, futures s 7, futures s 8, map pc (workers s)))
     (run (failing_task_popped @ [Work 0, Work 0, Work 0, Work 0, Work 0]) init_pool)
   = Some ([(7, 0), (8, 0)], Some (Ready (Raised ''Task05'')), Some (Ready (Returned 1)), [W_Check])"
  by code_simp




section \<open>A cancelled worker\<close>

text \<open>A cancellation flag, once set, stays set.\<close>

lemma flag_stays_set:
  assumes "wf_inv s" "step a s = Some s'" "w < length (workers s)" "threadStopFlag (workers s ! w)"
  shows "w < length (workers s') \<and> threadStopFlag (workers s' ! w)"
proof (cases a)
  case (Call c)
  with assms(2) have "enter c s = Some s'" by (simp add: step_def)
  then show ?thesis
  proof (cases rule: enter_cases)
    case (Resize_grow n)
    then show ?thesis using assms(3,4) by (simp add: fold_InitThead nth_append)
  next
    case (Resize_shrink n s0)
    from assms(1) have len: "length (threads s) < 2 ^ 32" by (simp add: wf_inv_def)
    from shrink_loop_Inr[OF Resize_shrink(6,5) len]
    have s0: "s0 = fold mark_at (rev [unat n..<length (threads s)]) s" by auto
    show ?thesis using assms(3,4) Resize_shrink(7) by (simp add: s0)
  qed (use assms(3,4) in auto)
next
  case (Own k)
  with assms(2) have "owner_step k s = Some s'" by (simp add: step_def)
  then show ?thesis
    by (cases rule: owner_step_cases) (use assms(3,4) in auto)
next
  case (Work w')
  with assms(2) have "threadFunction w' s = Some s'" by (simp add: step_def)
  then show ?thesis
    by (cases rule: threadFunction_cases) (use assms(3,4) in auto)
next
  case (Spurious w')
  with assms(2) have "spurious_wakeup w' s = Some s'" by (simp add: step_def)
  then show ?thesis
    by (cases rule: spurious_wakeup_cases) (use assms(3,4) in auto)
qed

text \<open>
  Claim C10. Take a worker whose own cancellation flag is set, in a reachable state. No
  step of any thread clears the flag. If the worker is about to invoke the task it holds,
  its next step invokes it and takes it to the flag check of line 177; there its next
  step returns from the thread function: it does not lock \<^verbatim>\<open>_tasksMutex\<close> and leaves the
  queue as it is, empty or not, and the thread takes no further step.
\<close>

theorem cancelled_worker_exits_after_task:
  assumes "reachable s" "w < length (workers s)" "threadStopFlag (workers s ! w)"
  shows "(\<forall>a s'. step a s = Some s' \<longrightarrow> w < length (workers s') \<and> threadStopFlag (workers s' ! w))
       \<and> (\<forall>t. pc (workers s ! w) = W_Exec t \<longrightarrow>
            (\<exists>s'. threadFunction w s = Some s' \<and> pc (workers s' ! w) = W_Check
               \<and> executed s' = executed s @ [(t, index (workers s ! w))] \<and> tasks s' = tasks s))
       \<and> (pc (workers s ! w) = W_Check \<longrightarrow>
            (\<exists>s'. threadFunction w s = Some s' \<and> pc (workers s' ! w) = W_Exit
               \<and> tasks s' = tasks s \<and> tasksMutex s' = tasksMutex s
               \<and> executed s' = executed s \<and> threadFunction w s' = None))"
proof (intro conjI allI impI)
  fix a s' assume "step a s = Some s'"
  from flag_stays_set[OF wf_inv_reachable[OF assms(1)] this assms(2,3)]
  show "w < length (workers s')" "threadStopFlag (workers s' ! w)" by simp_all
next
  fix t assume "pc (workers s ! w) = W_Exec t"
  then show "\<exists>s'. threadFunction w s = Some s' \<and> pc (workers s' ! w) = W_Check
               \<and> executed s' = executed s @ [(t, index (workers s ! w))] \<and> tasks s' = tasks s"
    using assms(2) by (simp add: threadFunction_def)
next
  assume "pc (workers s ! w) = W_Check"
  then show "\<exists>s'. threadFunction w s = Some s' \<and> pc (workers s' ! w) = W_Exit
               \<and> tasks s' = tasks s \<and> tasksMutex s' = tasksMutex s
               \<and> executed s' = executed s \<and> threadFunction w s' = None"
    using assms(2,3) by (simp add: threadFunction_def)
qed

text \<open>One worker is busy with task 7 and task 8 is queued; \<^verbatim>\<open>Stop(false)\<close> has set the
  worker's flag and has not yet cleared the queue.\<close>

definition cancelled_while_busy :: "action list" where
  "cancelled_while_busy =
     [Call (Resize 1),
      Call (Enqueue 7 (\<lambda>i. Returned (int i + 35))), Own 0, Own 0, Own 0, Own 0,
      Work 0, Work 0,
      Call (Enqueue 8 (\<lambda>i. Returned 1)), Own 0, Own 0, Own 0, Own 0,
      Call (Stop False), Own 0]"

lemma cancelled_while_busy_state:
  "map_option (\<lambda>s. (map pc (workers s), map threadStopFlag (workers s), tasks s))
     (run cancelled_while_busy init_pool)
   = Some ([W_Exec 7], [True], [8])"
  by code_simp

lemma cancelled_while_busy_end:
  "map_option (\<lambda>s. (map pc (workers s), tasks s, executed s))
     (run (cancelled_while_busy @ [Work 0, Work 0]) init_pool)
   = Some ([W_Exit], [8], [(7, 0)])"
  by code_simp

theorem cancelled_worker_exits_after_task_witness:
  "(let s = the (run cancelled_while_busy init_pool) in
     reachable s \<and> threadStopFlag (workers s ! 0) \<and> pc (workers s ! 0) = W_Exec 7
     \<and> tasks s = [8]
     \<and> (\<exists>s'. threadFunction 0 s = Some s' \<and> pc (workers s' ! 0) = W_Check
           \<and> tasks s' = tasks s))"
proof -
  from cancelled_while_busy_state obtain s where s: "run cancelled_while_busy init_pool = Some s"
    and c: "map pc (workers s) = [W_Exec 7]" "map threadStopFlag (workers s) = [True]"
      "tasks s = [8]"
    by auto
  from s have r: "reachable s" using reachable_run[OF reachable_init] by blast
  from c(1,2) have w: "0 < length (workers s)" "pc (workers s ! 0) = W_Exec 7"
    "threadStopFlag (workers s ! 0)"
    by (auto simp: map_eq_Cons_conv)
  from conjunct1[OF conjunct2[OF cancelled_worker_exits_after_task[OF r w(1,3)]]] w(2)
  have "\<exists>s'. threadFunction 0 s = Some s' \<and> pc (workers s' ! 0) = W_Check
               \<and> executed s' = executed s @ [(7, index (workers s ! 0))] \<and> tasks s' = tasks s"
    by blast
  then have "\<exists>s'. threadFunction 0 s = Some s' \<and> pc (workers s' ! 0) = W_Check
           \<and> tasks s' = tasks s" by blast
  with r w(2,3) c(3) s show ?thesis by simp
qed

section \<open>Calling Stop again\<close>

text \<open>\<^verbatim>\<open>ClearTasks\<close> (lines 218 to 225) run to its end with no other thread at the queue: it
  pops and deletes every queued task, first to last.\<close>

definition ClearTasks :: "pool \<Rightarrow> pool" where
  "ClearTasks s = fold discard (tasks s) (s\<lparr>tasks := []\<rparr>)"

lemma ClearTasks_run:
  assumes "caller s = ClearTasks_Pop site" "tasksMutex s = None"
  shows "run (replicate (2 * length (tasks s) + 2) (Own k)) s
       = Some ((ClearTasks s)\<lparr>caller := (case site of Line69 \<Rightarrow> Stop_Lock | Line85 \<Rightarrow> Stop_Clear)\<rparr>)"
  using assms
proof (induction "tasks s" arbitrary: s)
  case Nil
  then have t: "tasks s = []" by simp
  have "s\<lparr>tasksMutex := None, caller := c\<rparr> = s\<lparr>tasks := [], caller := c\<rparr>" for c
    using t Nil.prems(2) by (intro pool.equality) simp_all
  then show ?case
    using Nil.prems t
    by (simp add: step_def owner_step_def lock_tasks_def PopTask_def ClearTasks_def)
next
  case (Cons t q)
  then have ts: "tasks s = t # q" by simp
  let ?s2 = "(discard t (s\<lparr>tasks := q\<rparr>))\<lparr>caller := ClearTasks_Pop site\<rparr>"
  have two: "run [Own k, Own k] s = Some ?s2"
  proof -
    have "(discard t (s\<lparr>tasksMutex := Some Owner, caller := ClearTasks_Popping site, tasks := q\<rparr>))
            \<lparr>tasksMutex := None, caller := ClearTasks_Pop site\<rparr> = ?s2"
      using Cons.prems(2) by (intro pool.equality) (simp_all add: discard_def split: option.splits shared_state.splits)
    then show ?thesis
      using Cons.prems ts
      by (simp add: step_def owner_step_def lock_tasks_def PopTask_def)
  qed
  have q: "q = tasks ?s2" by simp
  have c: "ClearTasks ?s2 = ClearTasks s"
  proof -
    have "?s2\<lparr>tasks := []\<rparr> = discard t (s\<lparr>tasks := []\<rparr>)"
      using Cons.prems(1) by (intro pool.equality) (simp_all add: discard_def split: option.splits shared_state.splits)
    then show ?thesis using ts by (simp add: ClearTasks_def)
  qed
  have "run (replicate (2 * length (tasks ?s2) + 2) (Own k)) ?s2
       = Some ((ClearTasks ?s2)\<lparr>caller := (case site of Line69 \<Rightarrow> Stop_Lock | Line85 \<Rightarrow> Stop_Clear)\<rparr>)"
    using Cons.prems(2) by (intro Cons.hyps(1)[OF q]) simp_all
  moreover have "replicate (2 * length (tasks s) + 2) (Own k)
       = [Own k, Own k] @ replicate (2 * length (tasks ?s2) + 2) (Own k)"
    using ts by simp
  ultimately show ?case
    using two c by (simp only: run_append) simp
qed

lemma discard_update:
  "discard t (s\<lparr>caller := c\<rparr>) = (discard t s)\<lparr>caller := c\<rparr>"
  "discard t (s\<lparr>stopFlag := b\<rparr>) = (discard t s)\<lparr>stopFlag := b\<rparr>"
  "discard t (s\<lparr>tasks := q\<rparr>) = (discard t s)\<lparr>tasks := q\<rparr>"
  by (simp_all add: discard_def split: option.splits shared_state.splits)

lemma fold_discard_update:
  "fold discard ts (s\<lparr>caller := c\<rparr>) = (fold discard ts s)\<lparr>caller := c\<rparr>"
  "fold discard ts (s\<lparr>stopFlag := b\<rparr>) = (fold discard ts s)\<lparr>stopFlag := b\<rparr>"
  "fold discard ts (s\<lparr>tasks := q\<rparr>) = (fold discard ts s)\<lparr>tasks := q\<rparr>"
  by (induction ts arbitrary: s; simp add: discard_update)+

lemma fold_discard_simps:
  "tasks (fold discard ts s) = tasks s" "threads (fold discard ts s) = threads s"
  "threadsStopFlags (fold discard ts s) = threadsStopFlags s"
  "threadsMutex (fold discard ts s) = threadsMutex s"
  "tasksMutex (fold discard ts s) = tasksMutex s"
  "caller (fold discard ts s) = caller s" "workers (fold discard ts s) = workers s"
  "executed (fold discard ts s) = executed s"
  "discarded (fold discard ts s) = discarded s @ ts"
  by (induction ts arbitrary: s; simp)+

lemma ClearTasks_simps:
  "tasks (ClearTasks s) = []" "threads (ClearTasks s) = threads s"
  "threadsStopFlags (ClearTasks s) = threadsStopFlags s"
  "threadsMutex (ClearTasks s) = threadsMutex s"
  "tasksMutex (ClearTasks s) = tasksMutex s"
  "caller (ClearTasks s) = caller s" "workers (ClearTasks s) = workers s"
  "executed (ClearTasks s) = executed s"
  "discarded (ClearTasks s) = discarded s @ tasks s"
  by (simp_all add: ClearTasks_def fold_discard_simps)

lemma ClearTasks_update:
  "ClearTasks (s\<lparr>caller := c\<rparr>) = (ClearTasks s)\<lparr>caller := c\<rparr>"
  "ClearTasks (s\<lparr>stopFlag := b\<rparr>) = (ClearTasks s)\<lparr>stopFlag := b\<rparr>"
  by (simp_all add: ClearTasks_def fold_discard_update)

lemma ClearTasks_empty: "tasks s = [] \<Longrightarrow> ClearTasks s = s"
  by (cases s) (simp add: ClearTasks_def)

lemma notify_all_exited: "all_exited s \<Longrightarrow> notify_all s = s"
proof -
  assume "all_exited s"
  then have "\<forall>x\<in>set (workers s). pc x = W_Exit"
    by (simp add: all_exited_def all_set_conv_all_nth)
  then have "map (\<lambda>x. if pc x = W_Wait then x\<lparr>pc := W_Woken\<rparr> else x) (workers s) = workers s"
    by (intro map_idI) simp
  then show ?thesis by (simp add: notify_all_def)
qed

lemma exited_unlocked:
  assumes "lock_inv s" "all_exited s" "caller s = C_Idle"
  shows "threadsMutex s = None" "tasksMutex s = None"
proof -
  show "threadsMutex s = None"
  proof (cases "threadsMutex s")
    case (Some h)
    with assms show ?thesis by (cases h) (auto simp: lock_inv_def all_exited_def)
  qed simp
  show "tasksMutex s = None"
  proof (cases "tasksMutex s")
    case (Some h)
    with assms show ?thesis by (cases h) (auto simp: lock_inv_def all_exited_def)
  qed simp
qed

text \<open>\<^verbatim>\<open>Stop(false)\<close> called on a pool on which only \<^verbatim>\<open>Stop(true)\<close> has taken effect: the
  guard of line 60 reads \<^verbatim>\<open>_stopFlag\<close> alone, so the call goes on, sets \<^verbatim>\<open>_stopFlag\<close> and runs
  \<^verbatim>\<open>ClearTasks\<close>.\<close>

lemma Stop_false_after_Stop_true:
  assumes "reachable s" "caller s = C_Idle" "detached s = []" "doneFlag s" "\<not> stopFlag s"
  shows "run (Call (Stop False) # replicate (2 * length (tasks s) + 9) (Own k)) s
       = Some ((ClearTasks s)\<lparr>stopFlag := True\<rparr>)"
proof -
  let ?n = "2 * length (tasks s) + 2"
  let ?c = "ClearTasks s"
  from stopped_all_exited[OF assms(1) _ assms(2,3)] assms(4) have ae: "all_exited s" by simp
  from phase_inv_reachable[OF assms(1)] assms(2,4) have th: "threads s = []"
    by (simp add: phase_inv_def)
  with wf_inv_reachable[OF assms(1)] have fl: "threadsStopFlags s = []"
    by (simp add: wf_inv_def)
  note mt = exited_unlocked[OF lock_inv_reachable[OF assms(1)] ae assms(2)]
  have 1: "run [Call (Stop False), Own k] s = Some (s\<lparr>stopFlag := True, caller := ClearTasks_Pop Line69\<rparr>)"
    using assms(2,5) th by (simp add: step_def enter_def owner_step_def ThreadsCount_def)
  have 2: "run (replicate ?n (Own k)) (s\<lparr>stopFlag := True, caller := ClearTasks_Pop Line69\<rparr>)
         = Some (?c\<lparr>stopFlag := True, caller := Stop_Lock\<rparr>)"
    using ClearTasks_run[of "s\<lparr>stopFlag := True, caller := ClearTasks_Pop Line69\<rparr>" Line69 k] mt(2)
    by (simp add: ClearTasks_update)
  have na: "notify_all (?c\<lparr>stopFlag := True, threadsMutex := Some Owner, caller := Stop_Notify\<rparr>)
          = ?c\<lparr>stopFlag := True, threadsMutex := Some Owner, caller := Stop_Notify\<rparr>"
    using ae by (intro notify_all_exited) (simp add: all_exited_def ClearTasks_simps)
  have 3: "run [Own k, Own k, Own k] (?c\<lparr>stopFlag := True, caller := Stop_Lock\<rparr>)
         = Some (?c\<lparr>stopFlag := True, threadsMutex := None, caller := ClearTasks_Pop Line85\<rparr>)"
    using mt(1) th na
    by (simp add: step_def owner_step_def lock_threads_def ThreadsCount_def ClearTasks_simps)
  have 4: "run (replicate (2 * 0 + 2) (Own k))
             (?c\<lparr>stopFlag := True, threadsMutex := None, caller := ClearTasks_Pop Line85\<rparr>)
         = Some (?c\<lparr>stopFlag := True, threadsMutex := None, caller := Stop_Clear\<rparr>)"
  proof -
    let ?s6 = "?c\<lparr>stopFlag := True, threadsMutex := None, caller := ClearTasks_Pop Line85\<rparr>"
    have e: "ClearTasks ?s6 = ?s6"
      by (intro ClearTasks_empty) (simp add: ClearTasks_simps)
    have "run (replicate (2 * length (tasks ?s6) + 2) (Own k)) ?s6
        = Some ((ClearTasks ?s6)\<lparr>caller := (case Line85 of Line69 \<Rightarrow> Stop_Lock | Line85 \<Rightarrow> Stop_Clear)\<rparr>)"
      using mt(2) by (intro ClearTasks_run) (simp_all add: ClearTasks_simps)
    then show ?thesis by (simp only: e) (simp add: ClearTasks_simps)
  qed
  have 5: "run [Own k] (?c\<lparr>stopFlag := True, threadsMutex := None, caller := Stop_Clear\<rparr>)
         = Some (?c\<lparr>stopFlag := True\<rparr>)"
  proof -
    have "?c\<lparr>stopFlag := True, threadsMutex := None, threads := [], threadsStopFlags := [],
              caller := C_Idle\<rparr> = ?c\<lparr>stopFlag := True\<rparr>"
      using mt(1) th fl assms(2) by (intro pool.equality) (simp_all add: ClearTasks_simps)
    then show ?thesis by (simp add: step_def owner_step_def)
  qed
  have "Call (Stop False) # replicate (2 * length (tasks s) + 9) (Own k)
      = [Call (Stop False), Own k] @ replicate ?n (Own k) @ [Own k, Own k, Own k]
        @ replicate (2 * 0 + 2) (Own k) @ [Own k]"
    by (simp add: numeral_eq_Suc replicate_app_Cons_same)
  also have "run \<dots> s = Some (?c\<lparr>stopFlag := True\<rparr>)"
    by (simp only: run_append 1 2 3 4 5 bind.bind_lunit)
  finally show ?thesis .
qed

lemma fold_discard_futures:
  "futures (fold discard ts s) t
     = (if t \<in> set ts \<and> futures s t = Some Pending then Some Broken else futures s t)"
  by (induction ts arbitrary: s)
     (auto simp: discard_def split: option.splits shared_state.splits)

lemma ClearTasks_futures:
  "futures (ClearTasks s) t
     = (if t \<in> set (tasks s) \<and> futures s t = Some Pending then Some Broken else futures s t)"
  by (simp add: ClearTasks_def fold_discard_futures)

text \<open>
  Claim C3, as the code has it. Take a pool on which a call to \<^verbatim>\<open>Stop\<close> has taken effect and
  returned, with no detached worker still running. \<^verbatim>\<open>Stop(true)\<close> returns at line 55 and
  changes nothing. \<^verbatim>\<open>Stop(false)\<close> returns at line 61 and changes nothing when \<^verbatim>\<open>_stopFlag\<close> is
  set, that is after a \<^verbatim>\<open>Stop(false)\<close>. After \<^verbatim>\<open>Stop(true)\<close> alone, \<^verbatim>\<open>Stop(false)\<close> is not a no-op:
  it runs to its end, sets \<^verbatim>\<open>_stopFlag\<close>, and deletes every task that is in the queue, whose
  result handles then hold \<^verbatim>\<open>broken_promise\<close>.
\<close>

theorem Stop_again:
  assumes "reachable s" "caller s = C_Idle" "detached s = []"
  shows "(doneFlag s \<or> stopFlag s \<longrightarrow> step (Call (Stop True)) s = Some s)
       \<and> (stopFlag s \<longrightarrow> step (Call (Stop False)) s = Some s)
       \<and> (doneFlag s \<and> \<not> stopFlag s \<longrightarrow>
            run (Call (Stop False) # replicate (2 * length (tasks s) + 9) (Own k)) s
              = Some ((ClearTasks s)\<lparr>stopFlag := True\<rparr>)
            \<and> tasks (ClearTasks s) = [] \<and> discarded (ClearTasks s) = discarded s @ tasks s
            \<and> (\<forall>t. futures (ClearTasks s) t
                   = (if t \<in> set (tasks s) \<and> futures s t = Some Pending then Some Broken
                      else futures s t)))"
proof (intro conjI impI allI)
  assume "doneFlag s \<or> stopFlag s"
  with assms(2) show "step (Call (Stop True)) s = Some s"
    by (auto simp: step_def enter_def)
next
  assume "stopFlag s"
  with assms(2) show "step (Call (Stop False)) s = Some s"
    by (simp add: step_def enter_def)
next
  assume "doneFlag s \<and> \<not> stopFlag s"
  then show "run (Call (Stop False) # replicate (2 * length (tasks s) + 9) (Own k)) s
           = Some ((ClearTasks s)\<lparr>stopFlag := True\<rparr>)"
    using Stop_false_after_Stop_true[OF assms] by simp
qed (simp_all add: ClearTasks_simps ClearTasks_futures)

text \<open>After the schedule above (\<^verbatim>\<open>Stop(true)\<close> has returned, task 8 was submitted afterwards
  and is in the queue), \<^verbatim>\<open>Stop(false)\<close> is called and runs to its end.\<close>

definition stop_now_after_stop :: "action list" where
  "stop_now_after_stop = enqueue_after_stop @ Call (Stop False) # replicate 11 (Own 0)"

text \<open>
  Claim C3 as stated fails for \<^verbatim>\<open>Stop(false)\<close> called after \<^verbatim>\<open>Stop(true)\<close> has taken effect:
  before the call \<^verbatim>\<open>_stopFlag\<close> is clear, task 8 is queued and its result handle is pending;
  after it \<^verbatim>\<open>_stopFlag\<close> is set, task 8 has been deleted and its result handle holds
  \<^verbatim>\<open>broken_promise\<close>.
\<close>

theorem Stop_false_after_Stop_true_discards:
  "map_option (\<lambda>s. (caller s, doneFlag s, stopFlag s, tasks s, discarded s, futures s 8))
     (run enqueue_after_stop init_pool)
   = Some (C_Idle, True, False, [8], [], Some Pending)
 \<and> map_option (\<lambda>s. (caller s, doneFlag s, stopFlag s, tasks s, discarded s, futures s 8))
     (run stop_now_after_stop init_pool)
   = Some (C_Idle, True, True, [], [8], Some Broken)"
  by code_simp

lemma enqueue_after_stop_state:
  "map_option (\<lambda>s. (caller s, doneFlag s, stopFlag s, tasks s, discarded s, futures s 8,
                    map pc (workers s)))
     (run enqueue_after_stop init_pool)
   = Some (C_Idle, True, False, [8], [], Some Pending, [W_Exit])"
  by code_simp

lemma stop_now_after_stop_state:
  "map_option (\<lambda>s. (caller s, stopFlag s, map pc (workers s)))
     (run stop_now_after_stop init_pool)
   = Some (C_Idle, True, [W_Exit])"
  by code_simp

theorem Stop_again_witness:
  "(let s = the (run enqueue_after_stop init_pool);
        s' = the (run stop_now_after_stop init_pool) in
     reachable s \<and> caller s = C_Idle \<and> detached s = [] \<and> doneFlag s \<and> \<not> stopFlag s
     \<and> step (Call (Stop True)) s = Some s
     \<and> run (Call (Stop False) # replicate 11 (Own 0)) s = Some ((ClearTasks s)\<lparr>stopFlag := True\<rparr>)
     \<and> discarded (ClearTasks s) = [8] \<and> futures (ClearTasks s) 8 = Some Broken
     \<and> reachable s' \<and> caller s' = C_Idle \<and> detached s' = [] \<and> stopFlag s'
     \<and> step (Call (Stop True)) s' = Some s' \<and> step (Call (Stop False)) s' = Some s')"
proof -
  from enqueue_after_stop_state obtain s where s: "run enqueue_after_stop init_pool = Some s"
    and c: "caller s = C_Idle" "doneFlag s" "\<not> stopFlag s" "tasks s = [8]" "discarded s = []"
      "futures s 8 = Some Pending" "map pc (workers s) = [W_Exit]"
    by auto
  from s have r: "reachable s" using reachable_run[OF reachable_init] by blast
  from c(7) have "length (workers s) = 1" "pc (workers s ! 0) = W_Exit"
    by (auto simp: map_eq_Cons_conv)
  then have d: "detached s = []" by (simp add: detached_def)
  from stop_now_after_stop_state obtain s' where s': "run stop_now_after_stop init_pool = Some s'"
    and c': "caller s' = C_Idle" "stopFlag s'" "map pc (workers s') = [W_Exit]"
    by auto
  from s' have r': "reachable s'" using reachable_run[OF reachable_init] by blast
  from c'(3) have "length (workers s') = 1" "pc (workers s' ! 0) = W_Exit"
    by (auto simp: map_eq_Cons_conv)
  then have d': "detached s' = []" by (simp add: detached_def)
  from Stop_again[OF r c(1) d, of 0] c(2,3)
  have a: "step (Call (Stop True)) s = Some s"
    "run (Call (Stop False) # replicate (2 * length (tasks s) + 9) (Own 0)) s
       = Some ((ClearTasks s)\<lparr>stopFlag := True\<rparr>)"
    "discarded (ClearTasks s) = discarded s @ tasks s"
    "futures (ClearTasks s) 8
       = (if 8 \<in> set (tasks s) \<and> futures s 8 = Some Pending then Some Broken else futures s 8)"
    by simp_all
  from Stop_again[OF r' c'(1) d', of 0] c'(2)
  have b: "step (Call (Stop True)) s' = Some s'" "step (Call (Stop False)) s' = Some s'"
    by simp_all
  from a c have a': "run (Call (Stop False) # replicate 11 (Own 0)) s = Some ((ClearTasks s)\<lparr>stopFlag := True\<rparr>)"
    "discarded (ClearTasks s) = [8]" "futures (ClearTasks s) 8 = Some Broken"
    by simp_all
  from s s' r r' c d c' d' a(1) a' b show ?thesis by simp
qed

section \<open>Locks and progress\<close>

text \<open>Some thread can take a step: the owner inside a member function, or a worker.\<close>

definition can_step :: "pool \<Rightarrow> bool" where
  "can_step s \<longleftrightarrow> (\<exists>k. owner_step k s \<noteq> None) \<or> (\<exists>w. threadFunction w s \<noteq> None)"

lemma can_step_owner: "owner_step k s \<noteq> None \<Longrightarrow> can_step s"
  unfolding can_step_def by blast

lemma can_step_worker: "threadFunction w s \<noteq> None \<Longrightarrow> can_step s"
  unfolding can_step_def by blast

text \<open>\<^verbatim>\<open>notify_one\<close> never blocks: the scheduler picks a waiting thread when there is one.\<close>

lemma notify_one_enabled: "\<exists>k. notify_one k s \<noteq> None"
proof (cases "list_ex (\<lambda>x. pc x = W_Wait) (workers s)")
  case True
  then obtain k where "k < length (workers s)" "pc (workers s ! k) = W_Wait"
    by (auto simp: list_ex_length)
  then have "notify_one k s \<noteq> None" by (simp add: notify_one_def)
  then show ?thesis ..
next
  case False
  then have "notify_one 0 s \<noteq> None" by (auto simp: notify_one_def list_ex_length)
  then show ?thesis ..
qed

text \<open>A thread that holds \<^verbatim>\<open>_tasksMutex\<close> is inside \<^verbatim>\<open>PushTask\<close> or \<^verbatim>\<open>PopTask\<close> and waits for
  nothing.\<close>

lemma tasks_holder_steps:
  assumes "lock_inv s" "tasksMutex s = Some h"
  shows "(h = Owner \<longrightarrow> owner_step k s \<noteq> None) \<and> (\<forall>w. h = Thread w \<longrightarrow> threadFunction w s \<noteq> None)"
proof (intro conjI impI allI)
  assume "h = Owner"
  with assms have "holds_tasks_c (caller s)" by (simp add: lock_inv_def)
  then show "owner_step k s \<noteq> None"
    by (cases "caller s") (auto simp: owner_step_def split: prod.splits option.splits)
next
  fix w assume h: "h = Thread w"
  with assms have w: "w < length (workers s)" by (simp add: lock_inv_def)
  with assms h have "holds_tasks_w (pc (workers s ! w))" by (simp add: lock_inv_def)
  with w show "threadFunction w s \<noteq> None"
    by (cases "pc (workers s ! w)") (auto simp: threadFunction_def split: prod.splits)
qed

lemma tasks_holder_can_step:
  assumes "lock_inv s" "tasksMutex s \<noteq> None" shows "can_step s"
proof -
  from assms(2) obtain h where h: "tasksMutex s = Some h" by auto
  from tasks_holder_steps[OF assms(1) h, of 0] show ?thesis
    by (cases h) (auto intro: can_step_owner can_step_worker)
qed

text \<open>A thread that holds \<^verbatim>\<open>_threadsMutex\<close> waits at most for \<^verbatim>\<open>_tasksMutex\<close>, inside the wait
  predicate.\<close>

lemma threads_holder_can_step:
  assumes "lock_inv s" "threadsMutex s \<noteq> None" shows "can_step s"
proof -
  from assms(2) obtain h where h: "threadsMutex s = Some h" by auto
  show ?thesis
  proof (cases h)
    case Owner
    with assms(1) h have c: "holds_threads_c (caller s)" by (simp add: lock_inv_def)
    from notify_one_enabled obtain k where "notify_one k s \<noteq> None" by blast
    with c have "owner_step k s \<noteq> None"
      by (cases "caller s") (auto simp: owner_step_def)
    then show ?thesis by (rule can_step_owner)
  next
    case (Thread w)
    with assms(1) h have w: "w < length (workers s)" by (simp add: lock_inv_def)
    with assms(1) h Thread have p: "holds_threads_w (pc (workers s ! w))" by (simp add: lock_inv_def)
    show ?thesis
    proof (cases "tasksMutex s = None")
      case True
      with w p have "threadFunction w s \<noteq> None"
        by (cases "pc (workers s ! w)") (auto simp: threadFunction_def lock_tasks_def split: prod.splits)
      then show ?thesis by (rule can_step_worker)
    next
      case False
      then show ?thesis by (rule tasks_holder_can_step[OF assms(1)])
    qed
  qed
qed

text \<open>A worker that has neither returned nor is blocked in the wait can step, or the
  holder of the mutex it wants can.\<close>

lemma worker_progress:
  assumes "lock_inv s" "w < length (workers s)"
    "pc (workers s ! w) \<noteq> W_Exit" "pc (workers s ! w) \<noteq> W_Wait"
  shows "can_step s"
proof (cases "tasksMutex s = None \<and> threadsMutex s = None")
  case True
  with assms(2-4) have "threadFunction w s \<noteq> None"
    by (cases "pc (workers s ! w)")
       (auto simp: threadFunction_def lock_tasks_def lock_threads_def split: prod.splits)
  then show ?thesis by (rule can_step_worker)
next
  case False
  then show ?thesis
    using tasks_holder_can_step[OF assms(1)] threads_holder_can_step[OF assms(1)] by blast
qed

text \<open>The owner inside a member function can step, or a thread it waits for can: the holder
  of a mutex, or the worker that \<^verbatim>\<open>join\<close> waits for, which is not blocked in the wait since
  \<^verbatim>\<open>notify_all\<close> ran after the flags were set.\<close>

lemma owner_progress:
  assumes "reachable s" "caller s \<noteq> C_Idle"
  shows "can_step s"
proof (cases "tasksMutex s = None \<and> threadsMutex s = None")
  case free: True
  note wf = wf_inv_reachable[OF assms(1)] and li = lock_inv_reachable[OF assms(1)]
    and fi = flag_inv_reachable[OF assms(1)] and ph = phase_inv_reachable[OF assms(1)]
  show ?thesis
  proof (cases "caller s")
    case C_Idle
    with assms(2) show ?thesis by simp
  next
    case (Stop_Flags i tc)
    with wf have "i < tc \<Longrightarrow> unat i < length (threadsStopFlags s)"
      by (simp add: wf_inv_def word_less_nat_alt)
    with Stop_Flags have "owner_step 0 s \<noteq> None" by (simp add: owner_step_def)
    then show ?thesis by (rule can_step_owner)
  next
    case (Stop_Join i)
    from wf have len: "unat (ThreadsCount s) = length (threads s)"
      by (simp add: wf_inv_def unat_ThreadsCount)
    show ?thesis
    proof (cases "i < ThreadsCount s \<and> joinable (workers s ! (threads s ! unat i))
                  \<and> pc (workers s ! (threads s ! unat i)) \<noteq> W_Exit")
      case True
      with len have j: "unat i < length (threads s)" by (simp add: word_less_nat_alt)
      with wf have w: "threads s ! unat i < length (workers s)" by (simp add: wf_inv_def)
      from ph Stop_Join have "doneFlag s \<or> stopFlag s" by (simp add: phase_inv_def)
      moreover from fi j Stop_Join
      have "threadStopFlag (workers s ! (threads s ! unat i)) = stopFlag s"
        by (simp add: flag_inv_def)
      ultimately have "doneFlag s \<or> threadStopFlag (workers s ! (threads s ! unat i))" by blast
      with fi w Stop_Join have "pc (workers s ! (threads s ! unat i)) \<noteq> W_Wait"
        by (auto simp: flag_inv_def)
      with True show ?thesis by (intro worker_progress[OF li w]) simp_all
    next
      case False
      with len Stop_Join have "owner_step 0 s \<noteq> None"
        by (auto simp: owner_step_def word_less_nat_alt)
      then show ?thesis by (rule can_step_owner)
    qed
  next
    case Enqueue_Notify
    from notify_one_enabled obtain k where "notify_one k s \<noteq> None" by blast
    with Enqueue_Notify have "owner_step k s \<noteq> None" by (simp add: owner_step_def)
    then show ?thesis by (rule can_step_owner)
  qed (use free in \<open>auto intro!: can_step_owner[of 0] simp: owner_step_def lock_tasks_def lock_threads_def
         split: prod.splits option.splits\<close>)
next
  case False
  then show ?thesis
    using tasks_holder_can_step[OF lock_inv_reachable[OF assms(1)]]
      threads_holder_can_step[OF lock_inv_reachable[OF assms(1)]] by blast
qed

text \<open>
  Claim C9, as the code has it. In every reachable state:
  a worker blocked in the wait of line 186 holds neither mutex;
  one thread holds both mutexes only when it is a worker inside the wait predicate, in the
  \<^verbatim>\<open>PopTask\<close> of line 188, where \<^verbatim>\<open>_tasksMutex\<close> is locked while \<^verbatim>\<open>_threadsMutex\<close> is held;
  the thread that holds \<^verbatim>\<open>_tasksMutex\<close> can always take its next step, so the two mutexes are
  only ever taken in the order \<^verbatim>\<open>_threadsMutex\<close>, \<^verbatim>\<open>_tasksMutex\<close> and form no cycle;
  a worker stays blocked in the wait with \<^verbatim>\<open>_doneFlag\<close> or its own flag set only until the
  owner, who set the flag, reaches its \<^verbatim>\<open>notify_all\<close>;
  and there is no deadlock: whenever the owner is inside a member function, or some worker
  has neither returned nor is blocked in the wait, some thread can take a step.
\<close>

theorem no_deadlock:
  assumes "reachable s"
  shows "(\<forall>w<length (workers s). pc (workers s ! w) = W_Wait
            \<longrightarrow> threadsMutex s \<noteq> Some (Thread w) \<and> tasksMutex s \<noteq> Some (Thread w))
       \<and> (\<forall>h. threadsMutex s = Some h \<and> tasksMutex s = Some h
            \<longrightarrow> (\<exists>w<length (workers s). h = Thread w \<and> pc (workers s ! w) = W_PredPopping))
       \<and> (tasksMutex s = Some Owner \<longrightarrow> owner_step k s \<noteq> None)
       \<and> (\<forall>w. tasksMutex s = Some (Thread w) \<longrightarrow> threadFunction w s \<noteq> None)
       \<and> (\<forall>w<length (workers s).
            pc (workers s ! w) = W_Wait \<and> (doneFlag s \<or> threadStopFlag (workers s ! w))
            \<longrightarrow> pre_notify (caller s))
       \<and> (caller s \<noteq> C_Idle
            \<or> (\<exists>w<length (workers s). pc (workers s ! w) \<noteq> W_Exit \<and> pc (workers s ! w) \<noteq> W_Wait)
            \<longrightarrow> can_step s)"
proof -
  note li = lock_inv_reachable[OF assms]
  have 1: "\<forall>w<length (workers s). pc (workers s ! w) = W_Wait
            \<longrightarrow> threadsMutex s \<noteq> Some (Thread w) \<and> tasksMutex s \<noteq> Some (Thread w)"
    using li by (auto simp: lock_inv_def)
  have 2: "\<forall>h. threadsMutex s = Some h \<and> tasksMutex s = Some h
            \<longrightarrow> (\<exists>w<length (workers s). h = Thread w \<and> pc (workers s ! w) = W_PredPopping)"
  proof (intro allI impI, elim conjE)
    fix h assume h: "threadsMutex s = Some h" "tasksMutex s = Some h"
    show "\<exists>w<length (workers s). h = Thread w \<and> pc (workers s ! w) = W_PredPopping"
    proof (cases h)
      case Owner
      with li h have "holds_threads_c (caller s)" "holds_tasks_c (caller s)"
        by (simp_all add: lock_inv_def)
      then show ?thesis by (cases "caller s") simp_all
    next
      case (Thread w)
      with li h have w: "w < length (workers s)" by (simp add: lock_inv_def)
      with li h Thread have "holds_threads_w (pc (workers s ! w))" "holds_tasks_w (pc (workers s ! w))"
        by (simp_all add: lock_inv_def)
      then have "pc (workers s ! w) = W_PredPopping"
        by (cases "pc (workers s ! w)") simp_all
      with w Thread show ?thesis by blast
    qed
  qed
  have 3: "tasksMutex s = Some Owner \<longrightarrow> owner_step k s \<noteq> None"
    using tasks_holder_steps[OF li, of Owner k] by blast
  have 4: "\<forall>w. tasksMutex s = Some (Thread w) \<longrightarrow> threadFunction w s \<noteq> None"
    using tasks_holder_steps[OF li, of _ k] by blast
  have 5: "\<forall>w<length (workers s).
            pc (workers s ! w) = W_Wait \<and> (doneFlag s \<or> threadStopFlag (workers s ! w))
            \<longrightarrow> pre_notify (caller s)"
    using flag_inv_reachable[OF assms] unfolding flag_inv_def by blast
  have 6: "caller s \<noteq> C_Idle
            \<or> (\<exists>w<length (workers s). pc (workers s ! w) \<noteq> W_Exit \<and> pc (workers s ! w) \<noteq> W_Wait)
            \<longrightarrow> can_step s"
    using owner_progress[OF assms] worker_progress[OF li] by blast
  show ?thesis by (intro conjI 1 2 3 4 5 6)
qed

text \<open>
  Claim C9 as stated fails for the second half: a fresh worker finds the queue empty,
  locks \<^verbatim>\<open>_threadsMutex\<close> (line 184) and evaluates the wait predicate, whose \<^verbatim>\<open>PopTask\<close>
  locks \<^verbatim>\<open>_tasksMutex\<close> (line 209): the worker holds both mutexes at once.
\<close>

theorem wait_predicate_holds_both_mutexes:
  "map_option (\<lambda>s. (threadsMutex s, tasksMutex s, map pc (workers s)))
     (run [Call (Resize 1), Work 0, Work 0, Work 0, Work 0, Work 0] init_pool)
   = Some (Some (Thread 0), Some (Thread 0), [W_PredPopping])"
  by code_simp

text \<open>Three states: the worker is inside the wait predicate's \<^verbatim>\<open>PopTask\<close> and the owner has
  entered \<^verbatim>\<open>Enqueue\<close>; the worker is blocked in the wait and the owner has entered
  \<^verbatim>\<open>Stop(true)\<close>; the owner is inside \<^verbatim>\<open>PushTask\<close>.\<close>

definition enqueue_during_predicate :: "action list" where
  "enqueue_during_predicate =
     [Call (Resize 1), Work 0, Work 0, Work 0, Work 0, Work 0, Call (Enqueue 7 (\<lambda>i. Returned 1))]"

definition stop_while_waiting :: "action list" where
  "stop_while_waiting =
     [Call (Resize 1), Work 0, Work 0, Work 0, Work 0, Work 0, Work 0, Work 0, Call (Stop True)]"

definition owner_pushing :: "action list" where
  "owner_pushing = [Call (Resize 1), Call (Enqueue 7 (\<lambda>i. Returned 1)), Own 0]"

lemma enqueue_during_predicate_state:
  "map_option (\<lambda>s. (caller s, threadsMutex s, tasksMutex s, map pc (workers s),
                    Option.is_none (owner_step 0 s)))
     (run enqueue_during_predicate init_pool)
   = Some (Enqueue_Push 7, Some (Thread 0), Some (Thread 0), [W_PredPopping], True)"
  by code_simp

lemma stop_while_waiting_state:
  "map_option (\<lambda>s. (caller s, threadsMutex s, tasksMutex s, map pc (workers s), doneFlag s))
     (run stop_while_waiting init_pool)
   = Some (Stop_Lock, None, None, [W_Wait], True)"
  by code_simp

lemma owner_pushing_state:
  "map_option (\<lambda>s. (caller s, tasksMutex s)) (run owner_pushing init_pool)
   = Some (Enqueue_Pushing 7, Some Owner)"
  by code_simp

theorem no_deadlock_witness:
  "(let a = the (run enqueue_during_predicate init_pool);
        c = the (run stop_while_waiting init_pool);
        d = the (run owner_pushing init_pool) in
     reachable a \<and> caller a = Enqueue_Push 7 \<and> Option.is_none (owner_step 0 a)
     \<and> threadsMutex a = Some (Thread 0) \<and> tasksMutex a = Some (Thread 0)
     \<and> pc (workers a ! 0) = W_PredPopping \<and> threadFunction 0 a \<noteq> None \<and> can_step a
     \<and> reachable c \<and> pc (workers c ! 0) = W_Wait \<and> doneFlag c
     \<and> threadsMutex c = None \<and> tasksMutex c = None \<and> pre_notify (caller c) \<and> can_step c
     \<and> reachable d \<and> tasksMutex d = Some Owner \<and> owner_step 0 d \<noteq> None)"
proof -
  from enqueue_during_predicate_state
  obtain a where a: "run enqueue_during_predicate init_pool = Some a"
    and ca: "caller a = Enqueue_Push 7" "threadsMutex a = Some (Thread 0)"
      "tasksMutex a = Some (Thread 0)" "map pc (workers a) = [W_PredPopping]"
      "Option.is_none (owner_step 0 a)"
    by auto
  from a have ra: "reachable a" using reachable_run[OF reachable_init] by blast
  from ca(4) have wa: "length (workers a) = 1" "pc (workers a ! 0) = W_PredPopping"
    by (auto simp: map_eq_Cons_conv)
  from stop_while_waiting_state
  obtain c where c: "run stop_while_waiting init_pool = Some c"
    and cc: "caller c = Stop_Lock" "threadsMutex c = None" "tasksMutex c = None"
      "map pc (workers c) = [W_Wait]" "doneFlag c"
    by auto
  from c have rc: "reachable c" using reachable_run[OF reachable_init] by blast
  from cc(4) have wc: "length (workers c) = 1" "pc (workers c ! 0) = W_Wait"
    by (auto simp: map_eq_Cons_conv)
  from owner_pushing_state
  obtain d where d: "run owner_pushing init_pool = Some d"
    and cd: "caller d = Enqueue_Pushing 7" "tasksMutex d = Some Owner"
    by auto
  from d have rd: "reachable d" using reachable_run[OF reachable_init] by blast
  note ta = no_deadlock[OF ra, of 0] and tc = no_deadlock[OF rc, of 0]
    and td = no_deadlock[OF rd, of 0]
  from ta ca(3) have a1: "threadFunction 0 a \<noteq> None" by blast
  from ta ca(1) have a2: "can_step a" by simp
  from tc wc cc(5) have c1: "pre_notify (caller c)" by simp
  from tc cc(1) have c2: "can_step c" by simp
  from td cd(2) have d1: "owner_step 0 d \<noteq> None" by blast
  from a c d ra rc rd ca wa cc wc cd a1 a2 c1 c2 d1 show ?thesis by simp
qed

section \<open>The executions of the class\<close>

text \<open>\<^verbatim>\<open>Init\<close> is private (line 120) and its only callers are the two constructors (lines 27
  and 32), which run it once on the default-constructed object. A program then calls
  \<^verbatim>\<open>Enqueue\<close> and \<^verbatim>\<open>Stop\<close> (the destructor is \<^verbatim>\<open>Stop(true)\<close>) while the workers run; it cannot
  call \<^verbatim>\<open>Init\<close> again.\<close>

fun member_action :: "action \<Rightarrow> bool" where
  "member_action (Call (Resize n)) = False"
| "member_action _ = True"

inductive in_use :: "pool \<Rightarrow> bool" where
  constructed: "step (Call (Resize n)) init_pool = Some s \<Longrightarrow> in_use s"
| used: "in_use s \<Longrightarrow> member_action a \<Longrightarrow> step a s = Some s' \<Longrightarrow> in_use s'"

lemma in_use_reachable: "in_use s \<Longrightarrow> reachable s"
  by (induction rule: in_use.induct) (auto intro: reachable.intros)

lemma in_use_run:
  "in_use s \<Longrightarrow> list_all member_action as \<Longrightarrow> run as s = Some s' \<Longrightarrow> in_use s'"
  by (induction as arbitrary: s) (auto split: option.splits intro: used)

text \<open>Every thread that was started and has not returned is in \<^verbatim>\<open>_threads\<close>: the shrinking
  branch of \<^verbatim>\<open>Init\<close> (lines 141 to 157) is never entered, and no thread is detached.\<close>

definition attached :: "pool \<Rightarrow> bool" where
  "attached s \<longleftrightarrow>
     \<not> in_init (caller s)
   \<and> (\<forall>w<length (workers s). w \<notin> set (threads s) \<longrightarrow> pc (workers s ! w) = W_Exit)"

lemma attached_constructed:
  assumes "step (Call (Resize n)) init_pool = Some s" shows "attached s"
proof -
  from assms have "enter (Resize n) init_pool = Some s" by (simp add: step_def)
  then show ?thesis
  proof (cases rule: enter_cases)
    case (Resize_noop n)
    then show ?thesis by (simp add: attached_def init_pool_def)
  next
    case (Resize_grow n)
    then show ?thesis
      by (simp add: attached_def fold_InitThead init_pool_def ThreadsCount_def)
  next
    case (Resize_shrink n s0)
    then show ?thesis by (simp add: ThreadsCount_def init_pool_def)
  qed simp_all
qed

lemma attached_step:
  assumes "wf_inv s" "exit_inv s" "attached s" "member_action a" "step a s = Some s'"
  shows "attached s'"
proof (cases a)
  case (Call c)
  with assms(5) have "enter c s = Some s'" by (simp add: step_def)
  then show ?thesis
    by (cases rule: enter_cases) (use assms(3,4) Call in \<open>auto simp: attached_def\<close>)
next
  case (Own k)
  with assms(5) have "owner_step k s = Some s'" by (simp add: step_def)
  then show ?thesis
  proof (cases rule: owner_step_cases)
    case Stop_clear
    have "pc (workers s ! w) = W_Exit" if w: "w < length (workers s)" for w
    proof (cases "w \<in> set (threads s)")
      case True
      then obtain j where "j < length (threads s)" "threads s ! j = w"
        by (auto simp: in_set_conv_nth)
      with assms(2) Stop_clear(1) show ?thesis by (auto simp: exit_inv_def)
    next
      case False
      with assms(3) w show ?thesis by (simp add: attached_def)
    qed
    with Stop_clear show ?thesis by (simp add: attached_def)
  qed (use assms(3) in \<open>auto simp: attached_def\<close>)
next
  case (Work w)
  with assms(5) have "threadFunction w s = Some s'" by (simp add: step_def)
  then show ?thesis
    by (cases rule: threadFunction_cases) (use assms(3) in \<open>auto simp: attached_def\<close>)
next
  case (Spurious w)
  with assms(5) have "spurious_wakeup w s = Some s'" by (simp add: step_def)
  then show ?thesis
    by (cases rule: spurious_wakeup_cases) (use assms(3) in \<open>auto simp: attached_def\<close>)
qed

lemma in_use_attached: "in_use s \<Longrightarrow> attached s"
proof (induction rule: in_use.induct)
  case (constructed n s)
  then show ?case by (rule attached_constructed)
next
  case (used s a s')
  note r = in_use_reachable[OF used.hyps(1)]
  from attached_step[OF wf_inv_reachable[OF r] exit_inv_reachable[OF r] used.IH used.hyps(2,3)]
  show ?case .
qed

lemma in_use_no_detached: "in_use s \<Longrightarrow> detached s = []"
  using in_use_attached[of s] unfolding detached_def attached_def filter_empty_conv by auto

text \<open>
  Claim C5. In every state of an execution of the class the value of \<^verbatim>\<open>IdleThreadsCount()\<close>
  lies within \<open>[0, ThreadsCount()]\<close>. No such state comes after a shrinking resize: only the
  constructors call \<^verbatim>\<open>Init\<close>, on the empty pool, so no worker is ever detached.
\<close>

theorem idle_count_bounds:
  assumes "in_use s"
  shows "0 \<le> IdleThreadsCount s \<and> IdleThreadsCount s \<le> int (unat (ThreadsCount s))
       \<and> detached s = []"
  using idle_count_le_live[OF in_use_reachable[OF assms]] in_use_no_detached[OF assms]
  by simp

text \<open>\<^verbatim>\<open>ThreadPool(2)\<close>; both workers find the queue empty and block in the wait.\<close>

definition both_idle :: "action list" where
  "both_idle =
     [Call (Resize 2),
      Work 0, Work 0, Work 0, Work 0, Work 0, Work 0, Work 0,
      Work 1, Work 1, Work 1, Work 1, Work 1, Work 1, Work 1]"

lemma both_idle_state:
  "map_option (\<lambda>s. (IdleThreadsCount s, unat (ThreadsCount s), map pc (workers s)))
     (run both_idle init_pool) = Some (2, 2, [W_Wait, W_Wait])"
  by code_simp

theorem idle_count_bounds_witness:
  "(let s = the (run both_idle init_pool) in
     in_use s \<and> IdleThreadsCount s = 2 \<and> unat (ThreadsCount s) = 2 \<and> detached s = []
     \<and> 0 \<le> IdleThreadsCount s \<and> IdleThreadsCount s \<le> int (unat (ThreadsCount s)))"
proof -
  from both_idle_state obtain s where s: "run both_idle init_pool = Some s"
    and c: "IdleThreadsCount s = 2" "unat (ThreadsCount s) = 2"
    by auto
  from s obtain s0 where s0: "step (Call (Resize 2)) init_pool = Some s0"
    and r: "run (tl both_idle) s0 = Some s"
    by (auto simp: both_idle_def split: option.splits)
  have "list_all member_action (tl both_idle)" by (simp add: both_idle_def)
  from in_use_run[OF constructed[OF s0] this r] have u: "in_use s" .
  from idle_count_bounds[OF u]
  have b: "0 \<le> IdleThreadsCount s" "IdleThreadsCount s \<le> int (unat (ThreadsCount s))"
    "detached s = []"
    by blast+
  show ?thesis unfolding Let_def s option.sel by (intro conjI u c b)
qed

end
